theory Spec2Isabelle
  imports Complex_Main "HOL-Library.Multiset" "HOL-Library.Word"
begin

text \<open>
  A model of main.go: the chunking of a sequence of integers, the in-place sort of every
  chunk, the merge of the sorted chunks, and the three modes that feed them (random
  numbers, one file, a directory of files).

  The elements are Go \<^verbatim>\<open>int\<close>s. The program copies and compares them and never computes
  with them, so they are integers here. Lengths, offsets and cursors are never negative
  and are natural numbers; \<^verbatim>\<open>minChunk\<close>, which starts at \<open>-1\<close>, is an integer, and the
  argument of runRandom is a 64-bit word read as a signed number.
\<close>

section \<open>Errors and checked indexing\<close>

text \<open>
  A Go run-time panic (index or slice bounds out of range) and a returned non-nil
  \<^verbatim>\<open>error\<close> are both values of one type; a function that can panic or fail returns
  \<open>error + 'a\<close>, with \<open>Inl\<close> for the failure.
\<close>

datatype error = Panic string | Error string

text \<open>\<^verbatim>\<open>xs[i]\<close> for a loop index that is never negative: panics when \<open>i\<close> is not below the length.\<close>

definition index_at :: "'a list \<Rightarrow> nat \<Rightarrow> error + 'a" where
  "index_at xs i = (if i < length xs then Inr (xs ! i) else Inl (Panic ''index out of range''))"

text \<open>\<^verbatim>\<open>xs[i]\<close> for a signed index (\<^verbatim>\<open>minChunk\<close> starts at \<open>-1\<close>).\<close>

definition index_int :: "'a list \<Rightarrow> int \<Rightarrow> error + 'a" where
  "index_int xs i = (if 0 \<le> i \<and> i < int (length xs) then Inr (xs ! nat i)
                     else Inl (Panic ''index out of range''))"

section \<open>Merge logic (main.go, mergeSortedChunks)\<close>

text \<open>
  The inner loop \<^verbatim>\<open>for i := range chunks\<close> of mergeSortedChunks, over the chunk numbers still
  to visit, with the loop-carried pair \<open>(minVal, minChunk)\<close>. The argument \<^verbatim>\<open>chunks [][]int\<close> is
  represented by the contents of its chunks: the function only reads them. Every indexing
  of the source is a checked access.
\<close>

fun scan :: "int list list \<Rightarrow> nat list \<Rightarrow> nat list \<Rightarrow> int \<times> int \<Rightarrow> error + (int \<times> int)" where
  "scan chunks indices [] (minVal, minChunk) = Inr (minVal, minChunk)"
| "scan chunks indices (i # todo) (minVal, minChunk) =
     (case index_at indices i of
        Inl e \<Rightarrow> Inl e
      | Inr idx \<Rightarrow>
          (case index_at chunks i of
             Inl e \<Rightarrow> Inl e
           | Inr chunk \<Rightarrow>
               (if idx < length chunk
                then (case index_at chunk idx of
                        Inl e \<Rightarrow> Inl e
                      | Inr val \<Rightarrow>
                          (if minChunk = -1 \<or> val < minVal
                           then scan chunks indices todo (val, int i)
                           else scan chunks indices todo (minVal, minChunk)))
                else scan chunks indices todo (minVal, minChunk))))"

text \<open>What is left to emit: the measure of the outer loop.\<close>

definition remaining :: "int list list \<Rightarrow> nat list \<Rightarrow> nat" where
  "remaining chunks indices = (\<Sum>i<length chunks. length (chunks ! i) - indices ! i)"

text \<open>A chunk number whose cursor has not reached the chunk's end.\<close>

definition active :: "int list list \<Rightarrow> nat list \<Rightarrow> nat \<Rightarrow> bool" where
  "active chunks indices i \<longleftrightarrow>
     i < length chunks \<and> i < length indices \<and> indices ! i < length (chunks ! i)"

lemma scan_picks_active:
  "scan chunks indices is (v0, c0) = Inr (v, c) \<Longrightarrow>
   c0 = -1 \<or> (0 \<le> c0 \<and> active chunks indices (nat c0)) \<Longrightarrow>
   c = -1 \<or> (0 \<le> c \<and> active chunks indices (nat c))"
proof (induction "is" arbitrary: v0 c0)
  case Nil
  then show ?case by simp
next
  case (Cons i "is")
  from Cons.prems(1) have ii: "i < length indices" and ic: "i < length chunks"
    by (auto simp: index_at_def split: if_splits)
  show ?case
  proof (cases "indices ! i < length (chunks ! i)")
    case False
    with Cons.prems ii ic have "scan chunks indices is (v0, c0) = Inr (v, c)"
      by (simp add: index_at_def)
    from Cons.IH [OF this Cons.prems(2)] show ?thesis .
  next
    case True
    hence act: "active chunks indices i" using ii ic by (simp add: active_def)
    show ?thesis
    proof (cases "c0 = -1 \<or> chunks ! i ! (indices ! i) < v0")
      case True
      with Cons.prems \<open>indices ! i < length (chunks ! i)\<close> ii ic
      have "scan chunks indices is (chunks ! i ! (indices ! i), int i) = Inr (v, c)"
        by (auto simp: index_at_def)
      from Cons.IH [OF this] act show ?thesis by simp
    next
      case False
      with Cons.prems \<open>indices ! i < length (chunks ! i)\<close> ii ic
      have "scan chunks indices is (v0, c0) = Inr (v, c)"
        by (auto simp: index_at_def)
      from Cons.IH [OF this Cons.prems(2)] show ?thesis .
    qed
  qed
qed

lemma remaining_advance:
  assumes "active chunks indices c"
  shows "remaining chunks (indices[c := indices ! c + 1]) < remaining chunks indices"
proof -
  let ?f = "\<lambda>i. length (chunks ! i) - indices ! i"
  let ?g = "\<lambda>i. length (chunks ! i) - indices[c := indices ! c + 1] ! i"
  from assms have c: "c < length chunks" "c < length indices" "indices ! c < length (chunks ! c)"
    by (simp_all add: active_def)
  have le: "\<And>i. ?g i \<le> ?f i"
    using c by (case_tac "i = c") (simp_all)
  have lt: "?g c < ?f c" using c by simp
  have "sum ?g {..<length chunks} < sum ?f {..<length chunks}"
  proof (rule sum_strict_mono_ex1)
    show "finite {..<length chunks}" by simp
    show "\<forall>i\<in>{..<length chunks}. ?g i \<le> ?f i" using le by blast
    show "\<exists>i\<in>{..<length chunks}. ?g i < ?f i" using lt c(1) by blast
  qed
  thus ?thesis by (simp add: remaining_def)
qed

text \<open>
  The outer loop \<^verbatim>\<open>for { ... }\<close>: one scan, then either \<^verbatim>\<open>break\<close> or emit \<open>minVal\<close> and
  advance the cursor of \<open>minChunk\<close>.
\<close>

function merge_loop :: "int list list \<Rightarrow> nat list \<Rightarrow> int list \<Rightarrow> error + int list" where
  "merge_loop chunks indices result =
     (case scan chunks indices [0..<length chunks] (0, -1) of
        Inl e \<Rightarrow> Inl e
      | Inr (minVal, minChunk) \<Rightarrow>
          if minChunk = -1 then Inr result
          else (case index_int indices minChunk of
                  Inl e \<Rightarrow> Inl e
                | Inr idx \<Rightarrow>
                    merge_loop chunks (indices[nat minChunk := idx + 1]) (result @ [minVal])))"
  by pat_completeness auto
termination
proof (relation "measure (\<lambda>(chunks, indices, result). remaining chunks indices)")
  show "wf (measure (\<lambda>(chunks, indices, result). remaining chunks indices))" by simp
next
  fix chunks :: "int list list" and indices :: "nat list" and result :: "int list"
    and x :: "int \<times> int" and minVal minChunk :: int and idx :: nat
  assume s: "scan chunks indices [0..<length chunks] (0, -1) = Inr x"
    and x: "(minVal, minChunk) = x" and ne: "minChunk \<noteq> -1"
    and ix: "index_int indices minChunk = Inr idx"
  from s x have "scan chunks indices [0..<length chunks] (0, -1) = Inr (minVal, minChunk)"
    by simp
  from scan_picks_active [OF this] ne
  have act: "active chunks indices (nat minChunk)" by simp
  from ix have "idx = indices ! nat minChunk"
    by (auto simp: index_int_def split: if_splits)
  with remaining_advance [OF act]
  show "((chunks, indices[nat minChunk := idx + 1], result @ [minVal]), (chunks, indices, result))
        \<in> measure (\<lambda>(chunks, indices, result). remaining chunks indices)"
    by simp
qed

declare merge_loop.simps [simp del]

text \<open>\<^verbatim>\<open>result := []int{}\<close>, \<^verbatim>\<open>indices := make([]int, len(chunks))\<close>, then the loop.\<close>

definition mergeSortedChunks :: "int list list \<Rightarrow> error + int list" where
  "mergeSortedChunks chunks = merge_loop chunks (replicate (length chunks) 0) []"

section \<open>Slices over a backing array\<close>

text \<open>
  A Go slice is a header (pointer, length, capacity) into a backing array. The backing array
  of the caller's \<^verbatim>\<open>numbers\<close> is the \<open>heap\<close>; \<open>ptr\<close> is an offset into it. All chunks made by
  splitIntoChunks are headers into this same array, so the aliasing between the chunks and
  the caller's sequence is explicit. The arrays behind \<^verbatim>\<open>chunks\<close>, \<^verbatim>\<open>indices\<close> and \<^verbatim>\<open>result\<close>
  are fresh and shared with nothing; they are plain lists.
\<close>

record slice =
  ptr :: nat
  len :: nat
  cap :: nat

type_synonym heap = "int list"

text \<open>The invariant of every Go slice: \<open>len \<le> cap\<close>, and the capacity lies inside the array.\<close>

definition wf_slice :: "heap \<Rightarrow> slice \<Rightarrow> bool" where
  "wf_slice heap s \<longleftrightarrow> len s \<le> cap s \<and> ptr s + cap s \<le> length heap"

text \<open>The elements \<^verbatim>\<open>s[0], ..., s[len(s)-1]\<close> that a slice shows of the array.\<close>

definition view :: "heap \<Rightarrow> slice \<Rightarrow> int list" where
  "view heap s = take (len s) (drop (ptr s) heap)"

text \<open>
  The slice expression \<^verbatim>\<open>s[low:high]\<close> on a slice: it panics unless
  \<open>0 \<le> low \<le> high \<le> cap(s)\<close>, and shares the array of \<open>s\<close>.
\<close>

definition reslice :: "slice \<Rightarrow> nat \<Rightarrow> nat \<Rightarrow> error + slice" where
  "reslice s low high =
     (if low \<le> high \<and> high \<le> cap s
      then Inr \<lparr>ptr = ptr s + low, len = high - low, cap = cap s - low\<rparr>
      else Inl (Panic ''slice bounds out of range''))"

text \<open>The indexed assignment \<^verbatim>\<open>xs[i] = v\<close>.\<close>

definition store_at :: "'a list \<Rightarrow> nat \<Rightarrow> 'a \<Rightarrow> error + 'a list" where
  "store_at xs i v = (if i < length xs then Inr (xs[i := v]) else Inl (Panic ''index out of range''))"

text \<open>The zero value of a slice, with which \<^verbatim>\<open>make([][]int, numChunks)\<close> fills \<^verbatim>\<open>chunks\<close>.\<close>

definition nil_slice :: slice where
  "nil_slice = \<lparr>ptr = 0, len = 0, cap = 0\<rparr>"

section \<open>Chunking logic (main.go, splitIntoChunks)\<close>

text \<open>
  \<^verbatim>\<open>int(math.Ceil(math.Sqrt(float64(n))))\<close>. Floating point is not modelled: the expression
  is taken as the exact integer ceiling of the real square root, computed here by search
  for the least \<open>k\<close> with \<open>n \<le> k * k\<close> (lemma \<open>ceilSqrt_real\<close> relates it to the real
  \<open>sqrt\<close>). The conversion \<^verbatim>\<open>float64(n)\<close> is exact below \<open>2^53\<close> and IEEE square root is correctly
  rounded, so the two agree for every length below \<open>2^52\<close>, which is beyond any slice that
  fits in memory.
\<close>

function sqrt_search :: "nat \<Rightarrow> nat \<Rightarrow> nat" where
  "sqrt_search n k = (if n \<le> k * k then k else sqrt_search n (Suc k))"
  by pat_completeness auto
termination
proof (relation "measure (\<lambda>(n, k). n - k)")
  show "wf (measure (\<lambda>(n, k). n - k))" by simp
next
  fix n k :: nat
  assume "\<not> n \<le> k * k"
  hence "k * k < n" by simp
  moreover have "k \<le> k * k" by (cases k) simp_all
  ultimately have "k < n" by (metis le_less_trans)
  thus "((n, Suc k), (n, k)) \<in> measure (\<lambda>(n, k). n - k)" by simp
qed

declare sqrt_search.simps [simp del]

definition ceilSqrt :: "nat \<Rightarrow> nat" where
  "ceilSqrt n = sqrt_search n 0"

text \<open>
  The loop \<^verbatim>\<open>for i := 0; i < numChunks; i++\<close>, over the values of \<open>i\<close> still to come, with the
  loop-carried \<open>index\<close> and \<open>chunks\<close>.
\<close>

fun split_loop ::
  "slice \<Rightarrow> nat \<Rightarrow> nat \<Rightarrow> nat list \<Rightarrow> nat \<Rightarrow> slice list \<Rightarrow> error + slice list" where
  "split_loop numbers baseSize remainder [] index chunks = Inr chunks"
| "split_loop numbers baseSize remainder (i # todo) index chunks =
     (let size = (if i < remainder then baseSize + 1 else baseSize) in
      case reslice numbers index (index + size) of
        Inl e \<Rightarrow> Inl e
      | Inr s \<Rightarrow>
          (case store_at chunks i s of
             Inl e \<Rightarrow> Inl e
           | Inr chunks' \<Rightarrow> split_loop numbers baseSize remainder todo (index + size) chunks'))"

definition splitIntoChunks :: "slice \<Rightarrow> error + slice list" where
  "splitIntoChunks numbers =
     (let n = len numbers;
          numChunks = (if ceilSqrt n < 4 then 4 else ceilSqrt n);
          chunks = replicate numChunks nil_slice;
          baseSize = n div numChunks;
          remainder = n mod numChunks
      in split_loop numbers baseSize remainder [0..<numChunks] 0 chunks)"

section \<open>Concurrent sorting (main.go, sortChunksConcurrently)\<close>

text \<open>
  \<^verbatim>\<open>sort.Ints(s)\<close> sorts the elements that \<open>s\<close> shows, ascending and in place: it writes into
  the backing array. For integers the sorted arrangement is unique, so the library's
  algorithm is immaterial.
\<close>

definition sortInts :: "heap \<Rightarrow> slice \<Rightarrow> heap" where
  "sortInts heap s = take (ptr s) heap @ sort (view heap s) @ drop (ptr s + len s) heap"

text \<open>
  One task per chunk, and the caller waits for all of them. The model runs the tasks one
  after the other in chunk order, each as one step; for the chunks of splitIntoChunks any
  other order gives the same array (lemma \<open>sort_tasks_any_order\<close>). The returned
  \<^verbatim>\<open>chunks\<close> are the same headers.
\<close>

definition sortChunksConcurrently :: "heap \<Rightarrow> slice list \<Rightarrow> heap \<times> slice list" where
  "sortChunksConcurrently heap chunks = (fold (\<lambda>c h. sortInts h c) chunks heap, chunks)"

text \<open>
  The three calls as they stand in processAndPrint and in runDirectory:
  \<^verbatim>\<open>chunks := splitIntoChunks(numbers); sortedChunks := sortChunksConcurrently(chunks);
  result := mergeSortedChunks(sortedChunks)\<close>. The result carries the array as the calls
  leave it.
\<close>

definition pipeline :: "heap \<Rightarrow> slice \<Rightarrow> error + (heap \<times> int list)" where
  "pipeline heap numbers =
     (case splitIntoChunks numbers of
        Inl e \<Rightarrow> Inl e
      | Inr chunks \<Rightarrow>
          (case sortChunksConcurrently heap chunks of
             (heap', sortedChunks) \<Rightarrow>
               (case mergeSortedChunks (map (view heap') sortedChunks) of
                  Inl e \<Rightarrow> Inl e
                | Inr result \<Rightarrow> Inr (heap', result))))"

section \<open>Console output and the shared processing (main.go, processAndPrint)\<close>

text \<open>
  What the program prints, in order: a line of text, a sequence printed with \<^verbatim>\<open>fmt.Println\<close>,
  or a chunk with its number printed by printChunks.
\<close>

datatype event = PrintLine string | PrintInts "int list" | PrintChunk nat "int list"

definition printChunks :: "heap \<Rightarrow> slice list \<Rightarrow> event list" where
  "printChunks heap chunks = map (\<lambda>i. PrintChunk i (view heap (chunks ! i))) [0..<length chunks]"

definition processAndPrint :: "heap \<Rightarrow> slice \<Rightarrow> error + (heap \<times> event list)" where
  "processAndPrint heap numbers =
     (case splitIntoChunks numbers of
        Inl e \<Rightarrow> Inl e
      | Inr chunks \<Rightarrow>
          (let before = PrintLine (CHR 0x0A # ''Chunks before sorting:'') # printChunks heap chunks in
           case sortChunksConcurrently heap chunks of
             (heap', sortedChunks) \<Rightarrow>
               (let after = PrintLine (CHR 0x0A # ''Chunks after sorting:'')
                              # printChunks heap' sortedChunks in
                case mergeSortedChunks (map (view heap') sortedChunks) of
                  Inl e \<Rightarrow> Inl e
                | Inr result \<Rightarrow>
                    Inr (heap', before @ after
                           @ [PrintLine (CHR 0x0A # ''Final sorted result:''), PrintInts result]))))"

section \<open>Random mode (main.go, runRandom and generateRandomNumbers)\<close>

text \<open>
  \<^verbatim>\<open>rand.Intn\<close> draws from the process-wide source. The source is a state \<open>'g\<close> passed along,
  and \<open>intn g k\<close> is the library call: its result and the next state. The library promises
  a result in \<open>[0, k)\<close>; that promise is a hypothesis of the theorem about runRandom.
  The loop \<^verbatim>\<open>for i := range nums\<close> runs over the indices still to fill.
\<close>

fun fill_random ::
  "('g \<Rightarrow> int \<Rightarrow> int \<times> 'g) \<Rightarrow> nat list \<Rightarrow> 'g \<Rightarrow> int list \<Rightarrow> error + (int list \<times> 'g)" where
  "fill_random intn [] g nums = Inr (nums, g)"
| "fill_random intn (i # todo) g nums =
     (case intn g 1000 of
        (v, g') \<Rightarrow>
          (case store_at nums i v of
             Inl e \<Rightarrow> Inl e
           | Inr nums' \<Rightarrow> fill_random intn todo g' nums'))"

text \<open>
  \<^verbatim>\<open>make([]int, n)\<close> on a 64-bit platform, where \<^verbatim>\<open>int\<close> and \<^verbatim>\<open>uintptr\<close> are 64 bits wide and an
  element takes 8 bytes. The run time's makeslice panics with \<^verbatim>\<open>len out of range\<close> when the
  length is negative, when the size in bytes overflows \<^verbatim>\<open>uintptr\<close>, or when it exceeds the
  allocator's limit \<^verbatim>\<open>maxAlloc\<close>. The limit depends on the platform (\<open>2^48\<close> bytes on
  linux/amd64) and is a parameter. Running out of memory below that limit ends the process
  and is not modelled.
\<close>

definition makeslice_panics :: "nat \<Rightarrow> int \<Rightarrow> bool" where
  "makeslice_panics maxAlloc k \<longleftrightarrow> k < 0 \<or> 2 ^ 64 \<le> 8 * k \<or> int maxAlloc < 8 * k"

text \<open>The argument is a Go \<^verbatim>\<open>int\<close>: a 64-bit word read as a signed number.\<close>

definition generateRandomNumbers ::
  "('g \<Rightarrow> int \<Rightarrow> int \<times> 'g) \<Rightarrow> nat \<Rightarrow> 'g \<Rightarrow> 64 word \<Rightarrow> error + (int list \<times> 'g)" where
  "generateRandomNumbers intn maxAlloc g n =
     (if makeslice_panics maxAlloc (sint n) then Inl (Panic ''makeslice: len out of range'')
      else fill_random intn [0..<nat (sint n)] g (replicate (nat (sint n)) 0))"

text \<open>The slice that \<^verbatim>\<open>make([]int, n)\<close> returns over its fresh array.\<close>

definition whole :: "int list \<Rightarrow> slice" where
  "whole xs = \<lparr>ptr = 0, len = length xs, cap = length xs\<rparr>"

definition runRandom ::
  "('g \<Rightarrow> int \<Rightarrow> int \<times> 'g) \<Rightarrow> nat \<Rightarrow> 'g \<Rightarrow> 64 word \<Rightarrow> error + (event list \<times> 'g)" where
  "runRandom intn maxAlloc g n =
     (if sint n < 10 then Inl (Error ''N must be >= 10'')
      else case generateRandomNumbers intn maxAlloc g n of
             Inl e \<Rightarrow> Inl e
           | Inr (numbers, g') \<Rightarrow>
               (case processAndPrint numbers (whole numbers) of
                  Inl e \<Rightarrow> Inl e
                | Inr (heap', out) \<Rightarrow>
                    Inr ([PrintLine ''Original numbers:'', PrintInts numbers] @ out, g')))"

text \<open>
  What the source is asked for: \<open>k\<close> draws of \<^verbatim>\<open>rand.Intn(1000)\<close> one after the other, with the
  state of the source after them.
\<close>

fun drawn :: "('g \<Rightarrow> int \<Rightarrow> int \<times> 'g) \<Rightarrow> 'g \<Rightarrow> nat \<Rightarrow> int list \<times> 'g" where
  "drawn intn g 0 = ([], g)"
| "drawn intn g (Suc k) =
     (case intn g 1000 of
        (v, g') \<Rightarrow> (case drawn intn g' k of (vs, g'') \<Rightarrow> (v # vs, g'')))"

text \<open>A generator for the examples: a linear congruential step, reduced to the bound.\<close>

definition demo_intn :: "nat \<Rightarrow> int \<Rightarrow> int \<times> nat" where
  "demo_intn g k = (int g mod k, (g * 75 + 74) mod 65537)"

section \<open>File modes (main.go, readNumbersFromFile, runInputFile, runDirectory)\<close>

text \<open>
  The operating system and the standard library, as the program sees them. \<open>openFile\<close> is
  \<^verbatim>\<open>os.Open\<close> followed by the scanner: the lines that \<^verbatim>\<open>scanner.Scan\<close> delivers and then the value
  of \<^verbatim>\<open>scanner.Err()\<close>. \<open>trimSpace\<close> and \<open>atoi\<close> are \<^verbatim>\<open>strings.TrimSpace\<close> and \<^verbatim>\<open>strconv.Atoi\<close>
  (\<open>None\<close> when parsing fails). \<open>spare\<close> is the capacity beyond the length that \<^verbatim>\<open>append\<close>
  leaves in a slice grown to a given length. \<open>stat\<close> answers whether the path is a
  directory; \<open>create\<close> is \<^verbatim>\<open>os.Create\<close>. Reads do not depend on what the run has written.
\<close>

record env =
  openFile :: "string \<Rightarrow> error + (string list \<times> error option)"
  trimSpace :: "string \<Rightarrow> string"
  atoi :: "string \<Rightarrow> int option"
  spare :: "nat \<Rightarrow> nat"
  stat :: "string \<Rightarrow> error + bool"
  mkdirAll :: "string \<Rightarrow> error option"
  readDir :: "string \<Rightarrow> error + string list"
  ext :: "string \<Rightarrow> string"
  join :: "string \<Rightarrow> string \<Rightarrow> string"
  create :: "string \<Rightarrow> error option"

text \<open>The loop \<^verbatim>\<open>for scanner.Scan()\<close> over the lines still to come.\<close>

fun read_lines :: "env \<Rightarrow> string list \<Rightarrow> int list \<Rightarrow> error + int list" where
  "read_lines env [] numbers = Inr numbers"
| "read_lines env (text # later) numbers =
     (let line = trimSpace env text in
      if line = [] then read_lines env later numbers
      else case atoi env line of
             None \<Rightarrow> Inl (Error (''invalid integer: '' @ line))
           | Some val \<Rightarrow> read_lines env later (numbers @ [val]))"

text \<open>
  The two results of the source, the numbers and the error. The nil slice is the empty
  list.
\<close>

definition readNumbersFromFile :: "env \<Rightarrow> string \<Rightarrow> int list \<times> error option" where
  "readNumbersFromFile env path =
     (case openFile env path of
        Inl err \<Rightarrow> ([], Some err)
      | Inr (lines, scanErr) \<Rightarrow>
          (case read_lines env lines [] of
             Inl err \<Rightarrow> ([], Some err)
           | Inr numbers \<Rightarrow> (numbers, scanErr)))"

text \<open>The array and the slice header that the appends of readNumbersFromFile leave.\<close>

definition backing :: "env \<Rightarrow> int list \<Rightarrow> heap" where
  "backing env numbers = numbers @ replicate (spare env (length numbers)) 0"

definition appended :: "env \<Rightarrow> int list \<Rightarrow> slice" where
  "appended env numbers =
     \<lparr>ptr = 0, len = length numbers, cap = length numbers + spare env (length numbers)\<rparr>"

definition runInputFile :: "env \<Rightarrow> string \<Rightarrow> error + event list" where
  "runInputFile env path =
     (case readNumbersFromFile env path of
        (numbers, Some err) \<Rightarrow> Inl err
      | (numbers, None) \<Rightarrow>
          if length numbers < 10
          then Inl (Error ''input file must contain at least 10 valid integers'')
          else (case processAndPrint (backing env numbers) (appended env numbers) of
                  Inl e \<Rightarrow> Inl e
                | Inr (heap', out) \<Rightarrow>
                    Inr ([PrintLine ''Original numbers:'', PrintInts numbers] @ out)))"

text \<open>
  The files written so far, each with its path and the numbers put in it. A file counts as
  written once \<^verbatim>\<open>os.Create\<close> has succeeded; the source ignores the result of \<^verbatim>\<open>fmt.Fprintln\<close>.
\<close>

type_synonym written = "(string \<times> int list) list"

definition writeNumbersToFile :: "env \<Rightarrow> string \<Rightarrow> int list \<Rightarrow> written \<Rightarrow> error option \<times> written" where
  "writeNumbersToFile env path nums files =
     (case create env path of
        Some err \<Rightarrow> (Some err, files)
      | None \<Rightarrow> (None, files @ [(path, nums)]))"

text \<open>The loop \<^verbatim>\<open>for _, f := range files\<close> of runDirectory over the entries still to come.\<close>

fun dir_loop :: "env \<Rightarrow> string \<Rightarrow> string \<Rightarrow> string list \<Rightarrow> written \<Rightarrow> error option \<times> written" where
  "dir_loop env dir outputDir [] files = (None, files)"
| "dir_loop env dir outputDir (f # later) files =
     (if ext env f \<noteq> ''.txt'' then dir_loop env dir outputDir later files
      else case readNumbersFromFile env (join env dir f) of
             (numbers, Some err) \<Rightarrow> (Some err, files)
           | (numbers, None) \<Rightarrow>
               if length numbers < 10
               then (Some (Error (f @ '' has fewer than 10 numbers'')), files)
               else (case pipeline (backing env numbers) (appended env numbers) of
                       Inl e \<Rightarrow> (Some e, files)
                     | Inr (heap', result) \<Rightarrow>
                         (case writeNumbersToFile env (join env outputDir f) result files of
                            (Some err, files') \<Rightarrow> (Some err, files')
                          | (None, files') \<Rightarrow> dir_loop env dir outputDir later files')))"

definition runDirectory :: "env \<Rightarrow> string \<Rightarrow> error option \<times> written" where
  "runDirectory env dir =
     (case stat env dir of
        Inl err \<Rightarrow> (Some (Error ''invalid directory''), [])
      | Inr isDir \<Rightarrow>
          if \<not> isDir then (Some (Error ''invalid directory''), [])
          else (let outputDir = dir @ ''_sorted_sandra_jaimy_241ADB123'' in
                case mkdirAll env outputDir of
                  Some err \<Rightarrow> (Some err, [])
                | None \<Rightarrow>
                    (case readDir env dir of
                       Inl err \<Rightarrow> (Some err, [])
                     | Inr entries \<Rightarrow> dir_loop env dir outputDir entries [])))"

text \<open>The lines that the scanner hands to the loop (none when the file does not open).\<close>

definition scanned :: "env \<Rightarrow> string \<Rightarrow> string list" where
  "scanned env path = (case openFile env path of Inl err \<Rightarrow> [] | Inr (lines, scanErr) \<Rightarrow> lines)"

definition blank :: "env \<Rightarrow> string \<Rightarrow> bool" where
  "blank env text \<longleftrightarrow> trimSpace env text = []"

definition bad_line :: "env \<Rightarrow> string \<Rightarrow> bool" where
  "bad_line env text \<longleftrightarrow> \<not> blank env text \<and> atoi env (trimSpace env text) = None"

text \<open>An environment for the examples.\<close>

definition demo_trim :: "string \<Rightarrow> string" where
  "demo_trim s = rev (dropWhile (\<lambda>c. c = CHR '' '') (rev (dropWhile (\<lambda>c. c = CHR '' '') s)))"

definition digit_of :: "char \<Rightarrow> nat option" where
  "digit_of c = (if c \<in> set ''0123456789'' then Some (of_char c - 48) else None)"

fun digits_val :: "string \<Rightarrow> nat \<Rightarrow> nat option" where
  "digits_val [] acc = Some acc"
| "digits_val (c # cs) acc =
     (case digit_of c of None \<Rightarrow> None | Some d \<Rightarrow> digits_val cs (acc * 10 + d))"

definition demo_atoi :: "string \<Rightarrow> int option" where
  "demo_atoi s =
     (case s of
        [] \<Rightarrow> None
      | c # cs \<Rightarrow>
          if c = CHR ''-'' then (if cs = [] then None else map_option (\<lambda>v. - int v) (digits_val cs 0))
          else map_option int (digits_val s 0))"

definition demo_env :: env where
  "demo_env =
     \<lparr>openFile = (\<lambda>p.
         if p = ''in/a.txt''
         then Inr ([''12'', [], '' 7 '', ''-3'', ''5'', ''5'', ''40'', ''1'', ''0'', ''9'', ''8'', ''22''], None)
         else if p = ''in/b.txt'' then Inr ([''1'', ''2'', ''abc'', ''4''], None)
         else if p = ''in/c.txt'' then Inr ([''1'', ''2'', ''3''], None)
         else if p = ''in/long.txt''
         then Inr ([''1'', ''2''], Some (Error ''bufio.Scanner: token too long''))
         else Inl (Error ''open: no such file or directory'')),
       trimSpace = demo_trim,
       atoi = demo_atoi,
       spare = (\<lambda>n. 4),
       stat = (\<lambda>p. if p = ''in'' then Inr True else Inl (Error ''stat: no such file or directory'')),
       mkdirAll = (\<lambda>p. None),
       readDir = (\<lambda>p. if p = ''in'' then Inr [''a.txt'', ''notes.md'', ''b.txt'', ''c.txt'']
                       else Inl (Error ''readdir'')),
       ext = (\<lambda>f. drop (length f - 4) f),
       join = (\<lambda>d f. d @ CHR ''/'' # f),
       create = (\<lambda>p. None)\<rparr>"

section \<open>The merge as the specification words it\<close>

definition head_of :: "int list list \<Rightarrow> nat list \<Rightarrow> nat \<Rightarrow> int" where
  "head_of chunks indices i = chunks ! i ! (indices ! i)"

definition spec_select :: "int list list \<Rightarrow> nat list \<Rightarrow> (int \<times> nat) option" where
  "spec_select chunks indices =
     (let act = filter (active chunks indices) [0..<length chunks] in
      if act = [] then None
      else let m = Min (set (map (head_of chunks indices) act))
           in Some (m, hd (filter (\<lambda>i. head_of chunks indices i = m) act)))"


lemma spec_select_active:
  assumes "spec_select chunks indices = Some (m, i)"
  shows "active chunks indices i"
proof -
  let ?act = "filter (active chunks indices) [0..<length chunks]"
  let ?h = "head_of chunks indices"
  from assms have ne: "?act \<noteq> []" and m: "m = Min (set (map ?h ?act))"
    and i: "i = hd (filter (\<lambda>i. ?h i = m) ?act)"
    by (auto simp: spec_select_def Let_def split: if_splits)
  from ne have "set (map ?h ?act) \<noteq> {}"
    by (simp only: set_empty map_is_Nil_conv not_False_eq_True)
  hence "Min (set (map ?h ?act)) \<in> set (map ?h ?act)"
    by (intro Min_in) simp_all
  with m have "filter (\<lambda>i. ?h i = m) ?act \<noteq> []"
    by (auto simp: filter_empty_conv)
  hence "hd (filter (\<lambda>i. ?h i = m) ?act) \<in> set (filter (\<lambda>i. ?h i = m) ?act)"
    by (rule hd_in_set)
  with i have "i \<in> set ?act" by simp
  thus ?thesis by simp
qed

function spec_merge_from :: "int list list \<Rightarrow> nat list \<Rightarrow> int list" where
  "spec_merge_from chunks indices =
     (case spec_select chunks indices of
        None \<Rightarrow> []
      | Some (m, i) \<Rightarrow> m # spec_merge_from chunks (indices[i := indices ! i + 1]))"
  by pat_completeness auto
termination
proof (relation "measure (\<lambda>(chunks, indices). remaining chunks indices)")
  show "wf (measure (\<lambda>(chunks, indices). remaining chunks indices))" by simp
next
  fix chunks :: "int list list" and indices :: "nat list" and x :: "int \<times> nat"
    and m :: int and i :: nat
  assume "spec_select chunks indices = Some x" and "(m, i) = x"
  hence "active chunks indices i" by (auto dest: spec_select_active)
  from remaining_advance [OF this]
  show "((chunks, indices[i := indices ! i + 1]), (chunks, indices))
        \<in> measure (\<lambda>(chunks, indices). remaining chunks indices)"
    by simp
qed

declare spec_merge_from.simps [simp del]

definition spec_merge :: "int list list \<Rightarrow> int list" where
  "spec_merge chunks = spec_merge_from chunks (replicate (length chunks) 0)"


definition sel_on :: "int list list \<Rightarrow> nat list \<Rightarrow> nat list \<Rightarrow> (int \<times> nat) option" where
  "sel_on chunks indices js =
     (let act = filter (active chunks indices) js in
      if act = [] then None
      else let m = Min (set (map (head_of chunks indices) act))
           in Some (m, hd (filter (\<lambda>i. head_of chunks indices i = m) act)))"

lemma spec_select_sel_on: "spec_select chunks indices = sel_on chunks indices [0..<length chunks]"
  by (simp add: spec_select_def sel_on_def)

lemma scan_snoc:
  "scan chunks indices (js @ [i]) s =
     (case scan chunks indices js s of Inl e \<Rightarrow> Inl e | Inr s' \<Rightarrow> scan chunks indices [i] s')"
proof (induction js arbitrary: s)
  case Nil
  show ?case by (cases s) (simp split: sum.splits)
next
  case (Cons j js)
  obtain v c where s: "s = (v, c)" by (cases s)
  show ?case unfolding s using Cons.IH
    by (simp split: sum.splits)
qed

lemma scan_single:
  assumes "i < length chunks" "i < length indices"
  shows "scan chunks indices [i] (v, c) =
     Inr (if active chunks indices i \<and> (c = -1 \<or> head_of chunks indices i < v)
          then (head_of chunks indices i, int i) else (v, c))"
  using assms by (simp add: index_at_def active_def head_of_def)

lemma sel_on_snoc_inactive:
  "\<not> active chunks indices i \<Longrightarrow> sel_on chunks indices (js @ [i]) = sel_on chunks indices js"
  by (simp add: sel_on_def)

lemma sel_on_snoc_first:
  assumes "active chunks indices i" "sel_on chunks indices js = None"
  shows "sel_on chunks indices (js @ [i]) = Some (head_of chunks indices i, i)"
proof -
  from assms(2) have "filter (active chunks indices) js = []"
    by (simp add: sel_on_def Let_def split: if_splits)
  with assms(1) show ?thesis by (simp add: sel_on_def)
qed

lemma sel_on_snoc_later:
  assumes a: "active chunks indices i" and s: "sel_on chunks indices js = Some (m, k)"
  shows "sel_on chunks indices (js @ [i]) =
         Some (if head_of chunks indices i < m then (head_of chunks indices i, i) else (m, k))"
proof -
  let ?h = "head_of chunks indices"
  let ?act = "filter (active chunks indices) js"
  from s have ne: "?act \<noteq> []" and m: "m = Min (set (map ?h ?act))"
    and k: "k = hd (filter (\<lambda>j. ?h j = m) ?act)"
    by (auto simp: sel_on_def Let_def split: if_splits)
  have fin: "finite (set (map ?h ?act))" by simp
  from ne have ne': "set (map ?h ?act) \<noteq> {}"
    by (simp only: set_empty map_is_Nil_conv not_False_eq_True)
  have act': "filter (active chunks indices) (js @ [i]) = ?act @ [i]" using a by simp
  have m': "Min (set (map ?h (?act @ [i]))) = min (?h i) m"
    using Min_insert [OF fin ne', of "?h i"] m by simp
  have ge: "\<And>j. j \<in> set ?act \<Longrightarrow> m \<le> ?h j"
    unfolding m by (rule Min_le) auto
  have mem: "m \<in> set (map ?h ?act)" unfolding m by (rule Min_in [OF fin ne'])
  show ?thesis
  proof (cases "?h i < m")
    case True
    hence "filter (\<lambda>j. ?h j = ?h i) ?act = []"
      using ge by (fastforce simp: filter_empty_conv)
    with True show ?thesis
      unfolding sel_on_def act' Let_def m' by (simp add: min_def)
  next
    case False
    from mem have "filter (\<lambda>j. ?h j = m) ?act \<noteq> []"
      by (auto simp: filter_empty_conv)
    with False k show ?thesis
      unfolding sel_on_def act' Let_def m' by (simp add: min_def)
  qed
qed

lemma scan_sel_on:
  assumes "\<forall>i\<in>set js. i < length chunks \<and> i < length indices"
  shows "scan chunks indices js (0, -1) =
         Inr (case sel_on chunks indices js of None \<Rightarrow> (0, -1) | Some (m, i) \<Rightarrow> (m, int i))"
  using assms
proof (induction js rule: rev_induct)
  case Nil
  show ?case by (simp add: sel_on_def)
next
  case (snoc i js)
  hence i: "i < length chunks" "i < length indices" by simp_all
  from snoc have IH: "scan chunks indices js (0, -1) =
         Inr (case sel_on chunks indices js of None \<Rightarrow> (0, -1) | Some (m, i) \<Rightarrow> (m, int i))"
    by simp
  show ?case
  proof (cases "active chunks indices i")
    case False
    thus ?thesis
      by (simp add: scan_snoc IH scan_single [OF i] sel_on_snoc_inactive del: scan.simps
            split: option.splits)
  next
    case True
    show ?thesis
    proof (cases "sel_on chunks indices js")
      case None
      thus ?thesis
        by (simp add: scan_snoc IH scan_single [OF i] True sel_on_snoc_first [OF True None]
              del: scan.simps)
    next
      case (Some p)
      obtain m k where p: "p = (m, k)" by (cases p)
      from Some p have s: "sel_on chunks indices js = Some (m, k)" by simp
      show ?thesis
        by (simp add: scan_snoc IH scan_single [OF i] True s sel_on_snoc_later [OF True s]
              del: scan.simps)
    qed
  qed
qed

lemma scan_spec_select:
  assumes "length indices = length chunks"
  shows "scan chunks indices [0..<length chunks] (0, -1) =
         Inr (case spec_select chunks indices of None \<Rightarrow> (0, -1) | Some (m, i) \<Rightarrow> (m, int i))"
  unfolding spec_select_sel_on using assms by (intro scan_sel_on) simp

lemma merge_loop_refines:
  assumes "length indices = length chunks"
  shows "merge_loop chunks indices result = Inr (result @ spec_merge_from chunks indices)"
  using assms
proof (induction chunks indices arbitrary: result rule: spec_merge_from.induct)
  case (1 chunks indices)
  show ?case
  proof (cases "spec_select chunks indices")
    case None
    thus ?thesis
      by (simp add: merge_loop.simps [of chunks indices] spec_merge_from.simps [of chunks indices]
            scan_spec_select [OF "1.prems"])
  next
    case (Some p)
    obtain m i where p: "p = (m, i)" by (cases p)
    from Some p have s: "spec_select chunks indices = Some (m, i)" by simp
    from spec_select_active [OF s] "1.prems" have i: "i < length indices"
      by (simp add: active_def)
    have len: "length (indices[i := indices ! i + 1]) = length chunks"
      using "1.prems" by simp
    from "1.IH" [OF Some p [symmetric] len]
    have IH: "\<And>result. merge_loop chunks (indices[i := Suc (indices ! i)]) result
            = Inr (result @ spec_merge_from chunks (indices[i := Suc (indices ! i)]))"
      by simp
    show ?thesis
      by (simp add: merge_loop.simps [of chunks indices] spec_merge_from.simps [of chunks indices]
            scan_spec_select [OF "1.prems"] s index_int_def i IH)
  qed
qed

lemma mergeSortedChunks_refines: "mergeSortedChunks chunks = Inr (spec_merge chunks)"
  by (simp add: mergeSortedChunks_def spec_merge_def merge_loop_refines)



lemma spec_select_None:
  assumes "spec_select chunks indices = None" "i < length chunks"
  shows "\<not> active chunks indices i"
proof -
  from assms(1) have "filter (active chunks indices) [0..<length chunks] = []"
    by (simp add: spec_select_def Let_def split: if_splits)
  with assms(2) show ?thesis by (simp add: filter_empty_conv)
qed

lemma spec_select_Some:
  assumes "spec_select chunks indices = Some (m, i)"
  shows "head_of chunks indices i = m"
    and "\<And>j. active chunks indices j \<Longrightarrow> m \<le> head_of chunks indices j"
    and "\<And>j. active chunks indices j \<Longrightarrow> j < i \<Longrightarrow> m < head_of chunks indices j"
proof -
  let ?act = "filter (active chunks indices) [0..<length chunks]"
  let ?h = "head_of chunks indices"
  let ?ties = "filter (\<lambda>i. ?h i = m) ?act"
  from assms have ne: "?act \<noteq> []" and m: "m = Min (set (map ?h ?act))"
    and i: "i = hd ?ties"
    by (auto simp: spec_select_def Let_def split: if_splits)
  from ne have "set (map ?h ?act) \<noteq> {}"
    by (simp only: set_empty map_is_Nil_conv not_False_eq_True)
  hence "Min (set (map ?h ?act)) \<in> set (map ?h ?act)"
    by (intro Min_in) simp_all
  with m have tne: "?ties \<noteq> []"
    by (auto simp: filter_empty_conv)
  hence "hd ?ties \<in> set ?ties" by (rule hd_in_set)
  with i show "?h i = m" by simp
  have le: "m \<le> ?h j" if "active chunks indices j" for j
  proof -
    from that have "j \<in> set ?act" by (simp add: active_def)
    thus ?thesis unfolding m by (intro Min_le) auto
  qed
  show "\<And>j. active chunks indices j \<Longrightarrow> m \<le> ?h j" by (rule le)
  show "m < ?h j" if a: "active chunks indices j" and lt: "j < i" for j
  proof (rule ccontr)
    assume "\<not> m < ?h j"
    with le [OF a] have "?h j = m" by simp
    with a have mem: "j \<in> set ?ties" by (simp add: active_def)
    have "sorted ?ties" by (intro sorted_wrt_filter) simp
    moreover from tne have "?ties = hd ?ties # tl ?ties" by simp
    ultimately have "sorted (hd ?ties # tl ?ties)" by simp
    hence "\<forall>x\<in>set (tl ?ties). hd ?ties \<le> x" by simp
    with mem \<open>?ties = hd ?ties # tl ?ties\<close> have "hd ?ties \<le> j"
      by (metis order_refl set_ConsD)
    with i lt show False by simp
  qed
qed

text \<open>The elements not yet emitted: each chunk from its cursor on.\<close>

definition rest :: "int list list \<Rightarrow> nat list \<Rightarrow> int list" where
  "rest chunks indices = concat (map (\<lambda>(k, c). drop k c) (zip indices chunks))"

lemma mset_concat_take_head:
  "i < length xss \<Longrightarrow> xss ! i = x # ys \<Longrightarrow>
   mset (concat xss) = add_mset x (mset (concat (xss[i := ys])))"
proof (induction xss arbitrary: i)
  case Nil
  then show ?case by simp
next
  case (Cons xs xss)
  then show ?case by (cases i) simp_all
qed

lemma rest_advance:
  assumes len: "length indices = length chunks" and a: "active chunks indices i"
  shows "mset (rest chunks indices) =
         add_mset (head_of chunks indices i) (mset (rest chunks (indices[i := indices ! i + 1])))"
proof -
  let ?f = "\<lambda>(k, c). drop k c"
  let ?xss = "map ?f (zip indices chunks)"
  from a len have i: "i < length chunks" "i < length indices" "indices ! i < length (chunks ! i)"
    by (simp_all add: active_def)
  have 1: "i < length ?xss" using i len by simp
  have 2: "?xss ! i = head_of chunks indices i # drop (Suc (indices ! i)) (chunks ! i)"
    using i len by (simp add: head_of_def Cons_nth_drop_Suc)
  have 3: "map ?f (zip (indices[i := indices ! i + 1]) chunks)
           = ?xss[i := drop (Suc (indices ! i)) (chunks ! i)]"
    using i len by (simp add: list_eq_iff_nth_eq nth_list_update)
  show ?thesis
    unfolding rest_def 3 by (rule mset_concat_take_head [OF 1 2])
qed

lemma rest_exhausted:
  assumes len: "length indices = length chunks"
    and "\<And>i. i < length chunks \<Longrightarrow> \<not> active chunks indices i"
  shows "rest chunks indices = []"
proof -
  have "\<And>k c. (k, c) \<in> set (zip indices chunks) \<Longrightarrow> drop k c = []"
  proof -
    fix k c assume "(k, c) \<in> set (zip indices chunks)"
    then obtain i where "i < length chunks" "k = indices ! i" "c = chunks ! i"
      using len by (auto simp: in_set_zip)
    moreover from this assms(2) [of i] len have "\<not> indices ! i < length (chunks ! i)"
      by (simp add: active_def)
    ultimately show "drop k c = []" by simp
  qed
  thus ?thesis by (auto simp: rest_def)
qed

lemma mset_spec_merge_from:
  assumes "length indices = length chunks"
  shows "mset (spec_merge_from chunks indices) = mset (rest chunks indices)"
  using assms
proof (induction chunks indices rule: spec_merge_from.induct)
  case (1 chunks indices)
  show ?case
  proof (cases "spec_select chunks indices")
    case None
    with rest_exhausted [OF "1.prems"] spec_select_None [OF None]
    show ?thesis by (simp add: spec_merge_from.simps [of chunks indices])
  next
    case (Some p)
    obtain m i where p: "p = (m, i)" by (cases p)
    from Some p have s: "spec_select chunks indices = Some (m, i)" by simp
    have a: "active chunks indices i" by (rule spec_select_active [OF s])
    have len: "length (indices[i := indices ! i + 1]) = length chunks"
      using "1.prems" by simp
    from "1.IH" [OF Some p [symmetric] len] rest_advance [OF "1.prems" a] spec_select_Some(1) [OF s]
    show ?thesis by (simp add: spec_merge_from.simps [of chunks indices] s)
  qed
qed

lemma rest_initial: "rest chunks (replicate (length chunks) 0) = concat chunks"
proof -
  have "map (\<lambda>(k, c). drop k c) (zip (replicate (length chunks) 0) chunks) = chunks"
    by (simp add: list_eq_iff_nth_eq)
  thus ?thesis by (simp add: rest_def)
qed

lemma mset_spec_merge: "mset (spec_merge chunks) = mset (concat chunks)"
  by (simp add: spec_merge_def mset_spec_merge_from rest_initial)

lemma rest_lower_bound:
  assumes len: "length indices = length chunks"
    and srt: "\<And>c. c \<in> set chunks \<Longrightarrow> sorted c"
    and s: "spec_select chunks indices = Some (m, i)"
    and y: "y \<in> set (rest chunks indices)"
  shows "m \<le> y"
proof -
  from y obtain k c where kc: "(k, c) \<in> set (zip indices chunks)" and yc: "y \<in> set (drop k c)"
    by (auto simp: rest_def)
  then obtain j where j: "j < length chunks" "k = indices ! j" "c = chunks ! j"
    using len by (auto simp: in_set_zip)
  from yc have kl: "k < length c" by (cases "k < length c") auto
  with j len have a: "active chunks indices j" by (simp add: active_def)
  from yc obtain n where n: "y = c ! (k + n)" "k + n < length c"
    by (auto simp: in_set_conv_nth)
  have "sorted c" using srt j by simp
  hence "c ! k \<le> c ! (k + n)" using n(2) by (intro sorted_nth_mono) simp_all
  moreover have "m \<le> c ! k" using spec_select_Some(2) [OF s a] j by (simp add: head_of_def)
  ultimately show ?thesis using n(1) by simp
qed

lemma sorted_spec_merge_from:
  assumes "length indices = length chunks" "\<And>c. c \<in> set chunks \<Longrightarrow> sorted c"
  shows "sorted (spec_merge_from chunks indices)"
  using assms
proof (induction chunks indices rule: spec_merge_from.induct)
  case (1 chunks indices)
  show ?case
  proof (cases "spec_select chunks indices")
    case None
    thus ?thesis by (simp add: spec_merge_from.simps [of chunks indices])
  next
    case (Some p)
    obtain m i where p: "p = (m, i)" by (cases p)
    from Some p have s: "spec_select chunks indices = Some (m, i)" by simp
    have a: "active chunks indices i" by (rule spec_select_active [OF s])
    let ?ind = "indices[i := indices ! i + 1]"
    have len: "length ?ind = length chunks" using "1.prems" by simp
    have IH: "sorted (spec_merge_from chunks ?ind)"
      using "1.IH" [OF Some p [symmetric] len] "1.prems"(2) by simp
    have "m \<le> y" if "y \<in> set (spec_merge_from chunks ?ind)" for y
    proof -
      from that have "y \<in># mset (spec_merge_from chunks ?ind)" by simp
      hence "y \<in># mset (rest chunks ?ind)" by (simp only: mset_spec_merge_from [OF len])
      hence "y \<in># mset (rest chunks indices)"
        by (simp only: rest_advance [OF "1.prems"(1) a]) simp
      hence "y \<in> set (rest chunks indices)" by simp
      from rest_lower_bound [OF "1.prems"(1) "1.prems"(2) s this] show ?thesis .
    qed
    with IH show ?thesis
      by (simp add: spec_merge_from.simps [of chunks indices] s)
  qed
qed

lemma sorted_spec_merge: "(\<And>c. c \<in> set chunks \<Longrightarrow> sorted c) \<Longrightarrow> sorted (spec_merge chunks)"
  by (simp add: spec_merge_def sorted_spec_merge_from)


section \<open>Claims about the merge\<close>

text \<open>
  C10. For every list of chunks whatsoever (empty list, empty chunks, unsorted chunks),
  mergeSortedChunks terminates without an out-of-range access and returns a list whose
  length is the sum of the chunk lengths. In the model every indexing of the source is a
  checked access that yields \<open>Inl (Panic _)\<close> out of range, and \<open>merge_loop\<close> is a total
  function whose termination is proved from the source's loop: so the result \<open>Inr r\<close> says
  that the loop ends and that no access was out of range.
\<close>

theorem mergeSortedChunks_safe:
  "\<exists>r. mergeSortedChunks chunks = Inr r \<and> length r = sum_list (map length chunks)"
proof -
  have "size (mset (spec_merge chunks)) = size (mset (concat chunks))"
    by (simp only: mset_spec_merge)
  hence "length (spec_merge chunks) = sum_list (map length chunks)"
    by (simp add: length_concat)
  thus ?thesis by (simp add: mergeSortedChunks_refines)
qed

theorem mergeSortedChunks_safe_witness:
  "\<exists>r. mergeSortedChunks [[], [5, 1], [], [3]] = Inr r \<and> length r = 3"
  using mergeSortedChunks_safe [of "[[], [5, 1], [], [3]]"] by (simp add: eval_nat_numeral)

text \<open>
  C2. mergeSortedChunks repeatedly emits the numerically smallest head among the chunks
  that are not exhausted, taking it from the lowest-numbered chunk when several heads tie:
  it computes exactly \<open>spec_merge\<close>, the function written from the specification's words
  (\<open>spec_select\<close> picks the minimum of the heads and the first chunk that has it). This
  holds for all chunks, sorted or not. In particular \<open>[[1,4,7],[2,5],[3,6,8,9]]\<close> merges to
  \<open>[1,2,3,4,5,6,7,8,9]\<close>.
\<close>

theorem mergeSortedChunks_selects:
  "mergeSortedChunks chunks = Inr (spec_merge chunks) \<and>
   mergeSortedChunks [[1, 4, 7], [2, 5], [3, 6, 8, 9]] = Inr [1, 2, 3, 4, 5, 6, 7, 8, 9]"
proof
  show "mergeSortedChunks chunks = Inr (spec_merge chunks)" by (rule mergeSortedChunks_refines)
  show "mergeSortedChunks [[1, 4, 7], [2, 5], [3, 6, 8, 9]] = Inr [1, 2, 3, 4, 5, 6, 7, 8, 9]"
    by code_simp
qed

theorem mergeSortedChunks_selects_witness:
  "mergeSortedChunks [[2, 5], [2]] = Inr [2, 2, 5] \<and> spec_select [[2, 5], [2]] [0, 0] = Some (2, 0)"
proof -
  have a: "spec_merge [[2, 5], [2]] = [2, 2, 5]" by code_simp
  have b: "spec_select [[2, 5], [2]] [0, 0] = Some (2, 0)" by code_simp
  from mergeSortedChunks_selects [of "[[2, 5], [2]]"] a b show ?thesis by simp
qed

section \<open>Properties of chunking, sorting and the pipeline\<close>

subsection \<open>The chunk count\<close>

lemma sqrt_search_bounds:
  assumes "k = 0 \<or> (k - 1) * (k - 1) < n"
  shows "n \<le> sqrt_search n k * sqrt_search n k \<and>
         (sqrt_search n k = 0 \<or> (sqrt_search n k - 1) * (sqrt_search n k - 1) < n)"
  using assms
proof (induction n k rule: sqrt_search.induct)
  case (1 n k)
  show ?case
  proof (cases "n \<le> k * k")
    case True
    with "1.prems" show ?thesis by (simp add: sqrt_search.simps [of n k])
  next
    case False
    hence "Suc k = 0 \<or> (Suc k - 1) * (Suc k - 1) < n" by simp
    from "1.IH" [OF False this] False show ?thesis
      by (simp add: sqrt_search.simps [of n k])
  qed
qed

lemma ceilSqrt_bounds:
  "n \<le> ceilSqrt n * ceilSqrt n" "ceilSqrt n = 0 \<or> (ceilSqrt n - 1) * (ceilSqrt n - 1) < n"
  using sqrt_search_bounds [of 0 n] by (simp_all add: ceilSqrt_def)

lemma ceilSqrt_real: "ceilSqrt n = nat \<lceil>sqrt (real n)\<rceil>"
proof -
  let ?r = "ceilSqrt n"
  have up: "sqrt (real n) \<le> real ?r"
  proof -
    have "real n \<le> real (?r * ?r)" using ceilSqrt_bounds(1) [of n] by (simp only: of_nat_le_iff)
    hence "real n \<le> (real ?r)\<^sup>2" by (simp add: power2_eq_square)
    thus ?thesis by (intro real_le_lsqrt) simp_all
  qed
  have lo: "real ?r - 1 < sqrt (real n)"
  proof (cases "?r = 0")
    case True
    have "0 \<le> sqrt (real n)" by simp
    hence "- 1 < sqrt (real n)" by linarith
    with True show ?thesis by simp
  next
    case False
    with ceilSqrt_bounds(2) [of n] have "(?r - 1) * (?r - 1) < n" by simp
    hence "real ((?r - 1) * (?r - 1)) < real n" by (simp only: of_nat_less_iff)
    hence "(real (?r - 1))\<^sup>2 < real n" by (simp add: power2_eq_square)
    hence "real (?r - 1) < sqrt (real n)" by (intro real_less_rsqrt)
    moreover from False have "real (?r - 1) = real ?r - 1" by simp
    ultimately show ?thesis by simp
  qed
  have "\<lceil>sqrt (real n)\<rceil> = int ?r"
    by (rule ceiling_unique) (use up lo in simp_all)
  thus ?thesis by simp
qed

subsection \<open>The chunks that the loop produces\<close>

definition size_of :: "nat \<Rightarrow> nat \<Rightarrow> nat \<Rightarrow> nat" where
  "size_of baseSize remainder i = (if i < remainder then baseSize + 1 else baseSize)"

definition start_of :: "nat \<Rightarrow> nat \<Rightarrow> nat \<Rightarrow> nat" where
  "start_of baseSize remainder i = i * baseSize + min i remainder"

definition chunk_at :: "slice \<Rightarrow> nat \<Rightarrow> nat \<Rightarrow> nat \<Rightarrow> slice" where
  "chunk_at numbers baseSize remainder i =
     \<lparr>ptr = ptr numbers + start_of baseSize remainder i,
      len = size_of baseSize remainder i,
      cap = cap numbers - start_of baseSize remainder i\<rparr>"

lemma start_of_Suc:
  "start_of b r (Suc i) = start_of b r i + size_of b r i"
  by (simp add: start_of_def size_of_def min_def)

lemma start_of_mono: "i \<le> j \<Longrightarrow> start_of b r i \<le> start_of b r j"
  by (simp add: start_of_def add_mono min.coboundedI1)

lemma split_loop_closed:
  assumes "j \<le> k" "k \<le> length chunks" "start_of b r k \<le> cap numbers"
  shows "split_loop numbers b r [j..<k] (start_of b r j) chunks =
         Inr (take j chunks @ map (chunk_at numbers b r) [j..<k] @ drop k chunks)"
  using assms
proof (induction "k - j" arbitrary: j chunks)
  case 0
  then show ?case by simp
next
  case (Suc d)
  hence jk: "j < k" by simp
  hence upt: "[j..<k] = j # [Suc j..<k]" by (rule upt_conv_Cons)
  have "start_of b r (Suc j) \<le> start_of b r k" using jk by (intro start_of_mono) simp
  with Suc.prems have bound: "start_of b r j + size_of b r j \<le> cap numbers"
    by (simp add: start_of_Suc)
  have rs: "reslice numbers (start_of b r j) (start_of b r j + size_of b r j)
            = Inr (chunk_at numbers b r j)"
    using bound by (simp add: reslice_def chunk_at_def)
  have st: "store_at chunks j (chunk_at numbers b r j) = Inr (chunks[j := chunk_at numbers b r j])"
    using jk Suc.prems by (simp add: store_at_def)
  let ?chunks = "chunks[j := chunk_at numbers b r j]"
  have d: "d = k - Suc j" using Suc.hyps(2) by simp
  have IH: "split_loop numbers b r [Suc j..<k] (start_of b r (Suc j)) ?chunks =
         Inr (take (Suc j) ?chunks @ map (chunk_at numbers b r) [Suc j..<k] @ drop k ?chunks)"
    using jk Suc.prems by (intro Suc.hyps(1) [OF d]) simp_all
  have t: "take (Suc j) ?chunks = take j chunks @ [chunk_at numbers b r j]"
    using jk Suc.prems by (simp add: take_Suc_conv_app_nth)
  have dr: "drop k ?chunks = drop k chunks" using jk by simp
  show ?case
    unfolding upt using rs st IH t dr
    by (simp add: size_of_def [symmetric] start_of_Suc Let_def)
qed

definition numChunks_of :: "nat \<Rightarrow> nat" where
  "numChunks_of n = (if ceilSqrt n < 4 then 4 else ceilSqrt n)"

lemma numChunks_of_pos: "0 < numChunks_of n"
  by (simp add: numChunks_of_def)

lemma start_of_total:
  assumes "0 < k"
  shows "start_of (n div k) (n mod k) k = n"
proof -
  from assms have "n mod k < k" by simp
  hence "min k (n mod k) = n mod k" by simp
  thus ?thesis by (simp add: start_of_def)
qed

lemma splitIntoChunks_closed:
  assumes "len numbers \<le> cap numbers"
  shows "splitIntoChunks numbers =
         Inr (map (chunk_at numbers (len numbers div numChunks_of (len numbers))
                                    (len numbers mod numChunks_of (len numbers)))
                  [0..<numChunks_of (len numbers)])"
proof -
  let ?n = "len numbers"
  let ?k = "numChunks_of ?n"
  have tot: "start_of (?n div ?k) (?n mod ?k) ?k = ?n"
    by (rule start_of_total [OF numChunks_of_pos])
  have s0: "start_of (?n div ?k) (?n mod ?k) 0 = 0" by (simp add: start_of_def)
  have "split_loop numbers (?n div ?k) (?n mod ?k) [0..<?k] (start_of (?n div ?k) (?n mod ?k) 0)
          (replicate ?k nil_slice) =
        Inr (take 0 (replicate ?k nil_slice) @ map (chunk_at numbers (?n div ?k) (?n mod ?k)) [0..<?k]
             @ drop ?k (replicate ?k nil_slice))"
    by (rule split_loop_closed) (use tot assms in simp_all)
  thus ?thesis
    unfolding s0 by (simp add: splitIntoChunks_def numChunks_of_def [symmetric] Let_def)
qed

subsection \<open>Views of the chunks, before and after the in-place sorts\<close>

lemma view_chunk_at:
  "view heap (chunk_at numbers b r i) =
   take (size_of b r i) (drop (ptr numbers + start_of b r i) heap)"
  by (simp add: view_def chunk_at_def)

lemma concat_views:
  "concat (map (\<lambda>i. view heap (chunk_at numbers b r i)) [0..<k]) =
   take (start_of b r k) (drop (ptr numbers) heap)"
proof (induction k)
  case 0
  show ?case by (simp add: start_of_def)
next
  case (Suc k)
  let ?D = "drop (ptr numbers) heap"
  have "view heap (chunk_at numbers b r k) = take (size_of b r k) (drop (start_of b r k) ?D)"
    by (simp add: view_chunk_at add.commute)
  hence "concat (map (\<lambda>i. view heap (chunk_at numbers b r i)) [0..<Suc k]) =
         take (start_of b r k) ?D @ take (size_of b r k) (drop (start_of b r k) ?D)"
    using Suc.IH by simp
  also have "\<dots> = take (start_of b r k + size_of b r k) ?D"
    by (rule take_add [symmetric])
  finally show ?case by (simp only: start_of_Suc)
qed

lemma length_view_chunk_at:
  assumes "ptr numbers + start_of b r (Suc i) \<le> length heap"
  shows "length (view heap (chunk_at numbers b r i)) = size_of b r i"
  using assms by (simp add: view_chunk_at start_of_Suc)

lemma length_sorted_views:
  assumes "ptr numbers + start_of b r k \<le> length heap"
  shows "length (concat (map (\<lambda>i. sort (view heap (chunk_at numbers b r i))) [0..<k]))
         = start_of b r k"
  using assms
proof (induction k)
  case 0
  show ?case by (simp add: start_of_def)
next
  case (Suc k)
  have "start_of b r k \<le> start_of b r (Suc k)" by (intro start_of_mono) simp
  with Suc.prems have "ptr numbers + start_of b r k \<le> length heap" by simp
  from Suc.IH [OF this] length_view_chunk_at [OF Suc.prems]
  show ?case by (simp add: start_of_Suc)
qed

lemma sorts_closed:
  assumes "ptr numbers + start_of b r k \<le> length heap"
  shows "fold (\<lambda>c h. sortInts h c) (map (chunk_at numbers b r) [0..<k]) heap =
         take (ptr numbers) heap
         @ concat (map (\<lambda>i. sort (view heap (chunk_at numbers b r i))) [0..<k])
         @ drop (ptr numbers + start_of b r k) heap"
  using assms
proof (induction k)
  case 0
  show ?case by (simp add: start_of_def)
next
  case (Suc k)
  let ?a = "ptr numbers"
  let ?c = "chunk_at numbers b r"
  define pre where "pre = take ?a heap @ concat (map (\<lambda>i. sort (view heap (?c i))) [0..<k])"
  define H where "H = pre @ drop (?a + start_of b r k) heap"
  have "start_of b r k \<le> start_of b r (Suc k)" by (intro start_of_mono) simp
  with Suc.prems have le: "?a + start_of b r k \<le> length heap" by simp
  have HH: "fold (\<lambda>c h. sortInts h c) (map ?c [0..<k]) heap = H"
    using Suc.IH [OF le] by (simp add: H_def pre_def)
  have lp: "length pre = ?a + start_of b r k"
    using length_sorted_views [OF le] le by (simp add: pre_def)
  have tk: "take (?a + start_of b r k) H = pre" using lp by (simp add: H_def)
  have dp: "drop (?a + start_of b r k) H = drop (?a + start_of b r k) heap"
    using lp by (simp add: H_def)
  have vw: "view H (?c k) = view heap (?c k)"
    by (simp only: view_chunk_at dp)
  have dr: "drop (?a + start_of b r k + size_of b r k) H
            = drop (?a + start_of b r (Suc k)) heap"
  proof -
    have "drop (?a + start_of b r k + size_of b r k) H
          = drop (size_of b r k) (drop (?a + start_of b r k) H)"
      by (simp add: add.commute)
    also have "\<dots> = drop (size_of b r k) (drop (?a + start_of b r k) heap)"
      by (simp only: dp)
    also have "\<dots> = drop (?a + start_of b r (Suc k)) heap"
      by (simp add: start_of_Suc add.commute add.left_commute)
    finally show ?thesis .
  qed
  have "sortInts H (?c k) = take (?a + start_of b r k) H @ sort (view H (?c k))
            @ drop (?a + start_of b r k + size_of b r k) H"
    by (simp add: sortInts_def chunk_at_def)
  hence "sortInts H (?c k) = pre @ sort (view heap (?c k)) @ drop (?a + start_of b r (Suc k)) heap"
    by (simp only: tk vw dr)
  thus ?case by (simp add: HH pre_def)
qed

lemma view_after_sorts:
  assumes le: "ptr numbers + start_of b r k \<le> length heap" and i: "i < k"
  shows "view (fold (\<lambda>c h. sortInts h c) (map (chunk_at numbers b r) [0..<k]) heap)
              (chunk_at numbers b r i)
         = sort (view heap (chunk_at numbers b r i))"
proof -
  let ?a = "ptr numbers"
  let ?c = "chunk_at numbers b r"
  let ?g = "\<lambda>i. sort (view heap (?c i))"
  have "start_of b r i \<le> start_of b r k" using i by (intro start_of_mono) simp
  with le have lei: "?a + start_of b r i \<le> length heap" by simp
  have "start_of b r (Suc i) \<le> start_of b r k" using i by (intro start_of_mono) simp
  with le have leSi: "?a + start_of b r (Suc i) \<le> length heap" by simp
  have upt: "[0..<k] = [0..<i] @ i # [Suc i..<k]"
    using i by (metis le_add1 less_imp_add_positive upt_add_eq_append upt_conv_Cons plus_nat.add_0)
  let ?pre = "take ?a heap @ concat (map ?g [0..<i])"
  let ?post = "concat (map ?g [Suc i..<k]) @ drop (?a + start_of b r k) heap"
  have H: "fold (\<lambda>c h. sortInts h c) (map ?c [0..<k]) heap = ?pre @ ?g i @ ?post"
    by (simp add: sorts_closed [OF le]) (simp add: upt)
  have lp: "length ?pre = ?a + start_of b r i"
    using length_sorted_views [OF lei] lei by simp
  have lg: "length (?g i) = size_of b r i"
    using length_view_chunk_at [OF leSi] by simp
  have "view (?pre @ ?g i @ ?post) (?c i) = take (size_of b r i) (drop (?a + start_of b r i) (?pre @ ?g i @ ?post))"
    by (simp only: view_chunk_at)
  also have "\<dots> = take (size_of b r i) (?g i @ ?post)" using lp by simp
  also have "\<dots> = ?g i" using lg by simp
  finally show ?thesis by (simp only: H)
qed

subsection \<open>The pipeline in closed form\<close>

definition chunks_of :: "slice \<Rightarrow> slice list" where
  "chunks_of numbers =
     map (chunk_at numbers (len numbers div numChunks_of (len numbers))
                           (len numbers mod numChunks_of (len numbers)))
         [0..<numChunks_of (len numbers)]"

definition sorted_heap :: "heap \<Rightarrow> slice \<Rightarrow> heap" where
  "sorted_heap heap numbers =
     take (ptr numbers) heap
     @ concat (map (\<lambda>c. sort (view heap c)) (chunks_of numbers))
     @ drop (ptr numbers + len numbers) heap"

lemma splitIntoChunks_chunks_of:
  "len numbers \<le> cap numbers \<Longrightarrow> splitIntoChunks numbers = Inr (chunks_of numbers)"
  by (simp add: splitIntoChunks_closed chunks_of_def)

lemma concat_chunk_views: "concat (map (view heap) (chunks_of numbers)) = view heap numbers"
proof -
  let ?n = "len numbers"
  let ?k = "numChunks_of ?n"
  have "concat (map (view heap) (chunks_of numbers)) =
        concat (map (\<lambda>i. view heap (chunk_at numbers (?n div ?k) (?n mod ?k) i)) [0..<?k])"
    by (simp add: chunks_of_def comp_def)
  also have "\<dots> = take (start_of (?n div ?k) (?n mod ?k) ?k) (drop (ptr numbers) heap)"
    by (rule concat_views)
  finally show ?thesis
    by (simp add: start_of_total [OF numChunks_of_pos] view_def)
qed

lemma sortChunks_closed:
  assumes "wf_slice heap numbers"
  shows "sortChunksConcurrently heap (chunks_of numbers) = (sorted_heap heap numbers, chunks_of numbers)"
    and "map (view (sorted_heap heap numbers)) (chunks_of numbers)
         = map (\<lambda>c. sort (view heap c)) (chunks_of numbers)"
proof -
  let ?n = "len numbers"
  let ?k = "numChunks_of ?n"
  let ?b = "?n div ?k" and ?r = "?n mod ?k"
  have tot: "start_of ?b ?r ?k = ?n" by (rule start_of_total [OF numChunks_of_pos])
  from assms have le: "ptr numbers + start_of ?b ?r ?k \<le> length heap"
    unfolding tot by (simp add: wf_slice_def)
  have f: "fold (\<lambda>c h. sortInts h c) (chunks_of numbers) heap = sorted_heap heap numbers"
    using sorts_closed [OF le] unfolding tot
    by (simp add: chunks_of_def sorted_heap_def comp_def)
  thus "sortChunksConcurrently heap (chunks_of numbers) = (sorted_heap heap numbers, chunks_of numbers)"
    by (simp add: sortChunksConcurrently_def)
  have "\<And>i. i < ?k \<Longrightarrow> view (sorted_heap heap numbers) (chunk_at numbers ?b ?r i)
                        = sort (view heap (chunk_at numbers ?b ?r i))"
    using view_after_sorts [OF le] f by (simp add: chunks_of_def)
  thus "map (view (sorted_heap heap numbers)) (chunks_of numbers)
         = map (\<lambda>c. sort (view heap c)) (chunks_of numbers)"
    by (simp add: chunks_of_def)
qed

lemma pipeline_closed:
  assumes "wf_slice heap numbers"
  shows "pipeline heap numbers =
         Inr (sorted_heap heap numbers, spec_merge (map (\<lambda>c. sort (view heap c)) (chunks_of numbers)))"
proof -
  from assms have "len numbers \<le> cap numbers" by (simp add: wf_slice_def)
  from splitIntoChunks_chunks_of [OF this]
  show ?thesis
    by (simp add: pipeline_def mergeSortedChunks_refines sortChunks_closed(1) [OF assms]
          sortChunks_closed(2) [OF assms])
qed

lemma mset_sorted_chunks:
  "mset (concat (map (\<lambda>c. sort (view heap c)) cs)) = mset (concat (map (view heap) cs))"
  by (induction cs) simp_all

lemma pipeline_result:
  assumes "wf_slice heap numbers"
  defines "out \<equiv> spec_merge (map (\<lambda>c. sort (view heap c)) (chunks_of numbers))"
  shows "mset out = mset (view heap numbers)" "sorted out" "length out = len numbers"
proof -
  show m: "mset out = mset (view heap numbers)"
    by (simp add: out_def mset_spec_merge mset_sorted_chunks concat_chunk_views)
  show "sorted out" unfolding out_def by (rule sorted_spec_merge) auto
  from assms(1) have "len numbers \<le> length heap - ptr numbers"
    unfolding wf_slice_def by linarith
  hence "length (view heap numbers) = len numbers"
    by (simp add: view_def)
  moreover from m have "size (mset out) = size (mset (view heap numbers))" by simp
  ultimately show "length out = len numbers" by simp
qed

text \<open>
  C1. For every input sequence (a well-formed slice of any length, in particular of length
  at least 10) the pipeline splitIntoChunks, sortChunksConcurrently, mergeSortedChunks
  returns without a panic, and its output is a permutation of the input, is non-decreasing
  and has the input's length.
\<close>

theorem pipeline_sorts:
  assumes "wf_slice heap numbers"
  shows "\<exists>heap' out. pipeline heap numbers = Inr (heap', out) \<and>
           mset out = mset (view heap numbers) \<and> sorted out \<and> length out = len numbers"
  using pipeline_closed [OF assms] pipeline_result [OF assms] by simp

theorem pipeline_sorts_witness:
  "wf_slice [9, 8, 7, 6, 5, 4, 3, 2, 1, 0, 5] \<lparr>ptr = 0, len = 11, cap = 11\<rparr> \<and>
   (\<exists>heap' out. pipeline [9, 8, 7, 6, 5, 4, 3, 2, 1, 0, 5] \<lparr>ptr = 0, len = 11, cap = 11\<rparr> = Inr (heap', out) \<and>
      mset out = mset (view [9, 8, 7, 6, 5, 4, 3, 2, 1, 0, 5] \<lparr>ptr = 0, len = 11, cap = 11\<rparr>) \<and>
      sorted out \<and> length out = 11)"
proof -
  have w: "wf_slice [9, 8, 7, 6, 5, 4, 3, 2, 1, 0, 5] \<lparr>ptr = 0, len = 11, cap = 11\<rparr>"
    by (simp add: wf_slice_def)
  from pipeline_sorts [OF w] w show ?thesis by simp
qed

lemma sorted_concat_part:
  "sorted (concat xss) \<Longrightarrow> xs \<in> set xss \<Longrightarrow> sorted xs"
  by (induction xss) (auto simp: sorted_append)

lemma sort_view_sorted:
  assumes "sorted (view heap numbers)"
  shows "map (\<lambda>c. sort (view heap c)) (chunks_of numbers) = map (view heap) (chunks_of numbers)"
proof -
  have "sorted (concat (map (view heap) (chunks_of numbers)))"
    using assms by (simp add: concat_chunk_views)
  hence "\<And>c. c \<in> set (chunks_of numbers) \<Longrightarrow> sorted (view heap c)"
    by (rule sorted_concat_part) simp
  thus ?thesis by (simp add: sort_key_id_if_sorted)
qed

text \<open>
  C6. On an input sequence that is already non-decreasing the pipeline returns exactly that
  sequence (and leaves the array as it was).
\<close>

theorem pipeline_sorted_input:
  assumes "wf_slice heap numbers" "sorted (view heap numbers)"
  shows "pipeline heap numbers = Inr (heap, view heap numbers)"
proof -
  let ?out = "spec_merge (map (\<lambda>c. sort (view heap c)) (chunks_of numbers))"
  from pipeline_result [OF assms(1)]
  have "mset ?out = mset (view heap numbers)" "sorted ?out" by simp_all
  with assms(2) have out: "?out = view heap numbers"
    by (metis sorted_sort_id properties_for_sort)
  have "sorted_heap heap numbers =
        take (ptr numbers) heap @ view heap numbers @ drop (ptr numbers + len numbers) heap"
    by (simp add: sorted_heap_def sort_view_sorted [OF assms(2)] concat_chunk_views)
  also have "\<dots> = take (ptr numbers) heap
      @ (take (len numbers) (drop (ptr numbers) heap) @ drop (len numbers) (drop (ptr numbers) heap))"
    by (simp add: view_def add.commute)
  also have "\<dots> = heap" by (simp only: append_take_drop_id)
  finally have "sorted_heap heap numbers = heap" .
  with out pipeline_closed [OF assms(1)] show ?thesis by simp
qed

lemma numChunks_of_max: "numChunks_of n = max 4 (nat \<lceil>sqrt (real n)\<rceil>)"
  by (simp add: numChunks_of_def ceilSqrt_real [symmetric] max_def)

lemma length_chunks_of: "length (chunks_of numbers) = numChunks_of (len numbers)"
  by (simp add: chunks_of_def)

lemma numChunks_of_examples: "numChunks_of 10 = 4" "numChunks_of 100 = 10" "numChunks_of 5 = 4"
  by code_simp+

text \<open>
  C3. splitIntoChunks creates exactly \<open>max 4 \<lceil>sqrt n\<rceil>\<close> chunks for an input of length \<open>n\<close>:
  4 chunks for \<open>n = 10\<close>, 10 chunks for \<open>n = 100\<close>, 4 chunks for \<open>n = 5\<close>.
\<close>

theorem splitIntoChunks_count:
  assumes "len numbers \<le> cap numbers"
  shows "\<exists>chunks. splitIntoChunks numbers = Inr chunks \<and>
           length chunks = max 4 (nat \<lceil>sqrt (real (len numbers))\<rceil>) \<and>
           (len numbers = 10 \<longrightarrow> length chunks = 4) \<and>
           (len numbers = 100 \<longrightarrow> length chunks = 10) \<and>
           (len numbers = 5 \<longrightarrow> length chunks = 4)"
proof (intro exI conjI)
  show "splitIntoChunks numbers = Inr (chunks_of numbers)"
    by (rule splitIntoChunks_chunks_of [OF assms])
  show "length (chunks_of numbers) = max 4 (nat \<lceil>sqrt (real (len numbers))\<rceil>)"
    by (simp only: length_chunks_of numChunks_of_max)
  show "len numbers = 10 \<longrightarrow> length (chunks_of numbers) = 4"
    by (simp add: length_chunks_of numChunks_of_examples)
  show "len numbers = 100 \<longrightarrow> length (chunks_of numbers) = 10"
    by (simp add: length_chunks_of numChunks_of_examples)
  show "len numbers = 5 \<longrightarrow> length (chunks_of numbers) = 4"
    by (simp add: length_chunks_of numChunks_of_examples)
qed

theorem splitIntoChunks_count_witness:
  "len \<lparr>ptr = 0, len = 100, cap = 128\<rparr> \<le> cap \<lparr>ptr = 0, len = 100, cap = 128\<rparr> \<and>
   (\<exists>chunks. splitIntoChunks \<lparr>ptr = 0, len = 100, cap = 128\<rparr> = Inr chunks \<and> length chunks = 10)"
  using splitIntoChunks_count [of "\<lparr>ptr = 0, len = 100, cap = 128\<rparr>"] by auto

lemma sum_size_of: "sum_list (map (size_of b r) [0..<k]) = start_of b r k"
  by (induction k) (simp_all add: start_of_Suc, simp add: start_of_def)

lemma sizes_example: "map (size_of (10 div 4) (10 mod 4)) [0..<4] = [3, 3, 2, 2]"
  by code_simp

text \<open>
  C4. With \<open>base = n div numChunks\<close> and \<open>remainder = n mod numChunks\<close>, the first
  \<open>remainder\<close> chunks have \<open>base + 1\<close> elements and the others \<open>base\<close>; the first chunk
  starts where the input starts and each chunk starts where the one before it ends; the
  chunks' contents, concatenated, are the input; the sizes add up to \<open>n\<close>; and for
  \<open>n = 10\<close> the sizes are \<open>[3, 3, 2, 2]\<close>.
\<close>

theorem splitIntoChunks_sizes:
  assumes "len numbers \<le> cap numbers"
  shows "\<exists>chunks. splitIntoChunks numbers = Inr chunks \<and>
           (\<forall>i<length chunks.
              len (chunks ! i) = (if i < len numbers mod length chunks
                                  then len numbers div length chunks + 1
                                  else len numbers div length chunks)) \<and>
           ptr (chunks ! 0) = ptr numbers \<and>
           (\<forall>i. Suc i < length chunks \<longrightarrow>
              ptr (chunks ! Suc i) = ptr (chunks ! i) + len (chunks ! i)) \<and>
           concat (map (view heap) chunks) = view heap numbers \<and>
           sum_list (map len chunks) = len numbers \<and>
           (len numbers = 10 \<longrightarrow> map len chunks = [3, 3, 2, 2])"
proof (intro exI conjI)
  let ?n = "len numbers"
  let ?k = "numChunks_of ?n"
  show "splitIntoChunks numbers = Inr (chunks_of numbers)"
    by (rule splitIntoChunks_chunks_of [OF assms])
  show "\<forall>i<length (chunks_of numbers).
          len (chunks_of numbers ! i) = (if i < ?n mod length (chunks_of numbers)
                                  then ?n div length (chunks_of numbers) + 1
                                  else ?n div length (chunks_of numbers))"
    by (simp add: chunks_of_def chunk_at_def size_of_def)
  show "ptr (chunks_of numbers ! 0) = ptr numbers"
    using numChunks_of_pos [of ?n] by (simp add: chunks_of_def chunk_at_def start_of_def)
  show "\<forall>i. Suc i < length (chunks_of numbers) \<longrightarrow>
          ptr (chunks_of numbers ! Suc i) = ptr (chunks_of numbers ! i) + len (chunks_of numbers ! i)"
    by (simp add: chunks_of_def chunk_at_def start_of_Suc)
  show "concat (map (view heap) (chunks_of numbers)) = view heap numbers"
    by (rule concat_chunk_views)
  have "map len (chunks_of numbers) = map (size_of (?n div ?k) (?n mod ?k)) [0..<?k]"
    by (simp add: chunks_of_def chunk_at_def)
  thus "sum_list (map len (chunks_of numbers)) = ?n"
    by (simp only: sum_size_of start_of_total [OF numChunks_of_pos])
  show "?n = 10 \<longrightarrow> map len (chunks_of numbers) = [3, 3, 2, 2]"
  proof
    assume "?n = 10"
    hence "map len (chunks_of numbers) = map (size_of (10 div 4) (10 mod 4)) [0..<4]"
      by (simp add: chunks_of_def chunk_at_def numChunks_of_examples)
    thus "map len (chunks_of numbers) = [3, 3, 2, 2]" by (simp only: sizes_example)
  qed
qed

theorem splitIntoChunks_sizes_witness:
  "len \<lparr>ptr = 0, len = 10, cap = 10\<rparr> \<le> cap \<lparr>ptr = 0, len = 10, cap = 10\<rparr> \<and>
   (\<exists>chunks. splitIntoChunks \<lparr>ptr = 0, len = 10, cap = 10\<rparr> = Inr chunks \<and>
      map len chunks = [3, 3, 2, 2] \<and>
      concat (map (view [9, 8, 7, 6, 5, 4, 3, 2, 1, 0]) chunks) = [9, 8, 7, 6, 5, 4, 3, 2, 1, 0])"
proof -
  have v: "view [9, 8, 7, 6, 5, 4, 3, 2, 1, 0] \<lparr>ptr = 0, len = 10, cap = 10\<rparr> = [9, 8, 7, 6, 5, 4, 3, 2, 1, 0]"
    by (simp add: view_def)
  from splitIntoChunks_sizes [of "\<lparr>ptr = 0, len = 10, cap = 10\<rparr>" "[9, 8, 7, 6, 5, 4, 3, 2, 1, 0]"] v
  show ?thesis by auto
qed

text \<open>
  C5 as stated (the caller's sequence is unchanged after the pipeline) fails: the chunks
  alias the caller's array and sort.Ints sorts them in place. On the input
  \<open>[9,8,7,6,5,4,3,2,1,0]\<close> the caller's sequence reads \<open>[7,8,9,4,5,6,2,3,0,1]\<close> afterwards.
\<close>

theorem pipeline_mutates_input:
  "pipeline [9, 8, 7, 6, 5, 4, 3, 2, 1, 0] \<lparr>ptr = 0, len = 10, cap = 10\<rparr>
     = Inr ([7, 8, 9, 4, 5, 6, 2, 3, 0, 1], [0, 1, 2, 3, 4, 5, 6, 7, 8, 9]) \<and>
   view [7, 8, 9, 4, 5, 6, 2, 3, 0, 1] \<lparr>ptr = 0, len = 10, cap = 10\<rparr>
     \<noteq> view [9, 8, 7, 6, 5, 4, 3, 2, 1, 0] \<lparr>ptr = 0, len = 10, cap = 10\<rparr>"
proof
  show "pipeline [9, 8, 7, 6, 5, 4, 3, 2, 1, 0] \<lparr>ptr = 0, len = 10, cap = 10\<rparr>
     = Inr ([7, 8, 9, 4, 5, 6, 2, 3, 0, 1], [0, 1, 2, 3, 4, 5, 6, 7, 8, 9])"
    by code_simp
  show "view [7, 8, 9, 4, 5, 6, 2, 3, 0, 1] \<lparr>ptr = 0, len = 10, cap = 10\<rparr>
     \<noteq> view [9, 8, 7, 6, 5, 4, 3, 2, 1, 0] \<lparr>ptr = 0, len = 10, cap = 10\<rparr>"
    by (simp add: view_def)
qed

lemma view_sorted_heap:
  assumes "wf_slice heap numbers"
  shows "view (sorted_heap heap numbers) numbers
         = concat (map (\<lambda>c. sort (view heap c)) (chunks_of numbers))"
    and "length (sorted_heap heap numbers) = length heap"
    and "take (ptr numbers) (sorted_heap heap numbers) = take (ptr numbers) heap"
    and "drop (ptr numbers + len numbers) (sorted_heap heap numbers)
         = drop (ptr numbers + len numbers) heap"
proof -
  let ?n = "len numbers"
  let ?k = "numChunks_of ?n"
  let ?b = "?n div ?k" and ?r = "?n mod ?k"
  define C where "C = concat (map (\<lambda>c. sort (view heap c)) (chunks_of numbers))"
  have tot: "start_of ?b ?r ?k = ?n" by (rule start_of_total [OF numChunks_of_pos])
  from assms have le: "ptr numbers + ?n \<le> length heap" by (simp add: wf_slice_def)
  hence le': "ptr numbers + start_of ?b ?r ?k \<le> length heap" by (simp only: tot)
  have lC: "length C = ?n"
    using length_sorted_views [OF le'] unfolding tot by (simp add: C_def chunks_of_def comp_def)
  have lt: "length (take (ptr numbers) heap) = ptr numbers" using le by simp
  have S: "sorted_heap heap numbers = take (ptr numbers) heap @ C @ drop (ptr numbers + ?n) heap"
    by (simp add: sorted_heap_def C_def)
  show "view (sorted_heap heap numbers) numbers = C"
    unfolding S view_def using lt lC by simp
  show "length (sorted_heap heap numbers) = length heap"
    unfolding S using lt lC le by simp
  show "take (ptr numbers) (sorted_heap heap numbers) = take (ptr numbers) heap"
    unfolding S using lt by simp
  show "drop (ptr numbers + ?n) (sorted_heap heap numbers) = drop (ptr numbers + ?n) heap"
    unfolding S using lt lC by simp
qed

text \<open>
  C5 as amended. After the pipeline the caller's sequence holds the chunks of
  splitIntoChunks, each sorted ascending, in chunk order: a permutation of the original
  sequence of the same length. The array outside the sequence is unchanged.
\<close>

theorem pipeline_sorts_in_place:
  assumes "wf_slice heap numbers"
  shows "\<exists>chunks heap' out.
           splitIntoChunks numbers = Inr chunks \<and> pipeline heap numbers = Inr (heap', out) \<and>
           view heap' numbers = concat (map (\<lambda>c. sort (view heap c)) chunks) \<and>
           mset (view heap' numbers) = mset (view heap numbers) \<and>
           length heap' = length heap \<and>
           take (ptr numbers) heap' = take (ptr numbers) heap \<and>
           drop (ptr numbers + len numbers) heap' = drop (ptr numbers + len numbers) heap"
proof -
  from assms have "len numbers \<le> cap numbers" by (simp add: wf_slice_def)
  from splitIntoChunks_chunks_of [OF this] pipeline_closed [OF assms] view_sorted_heap [OF assms]
  show ?thesis by (simp add: mset_sorted_chunks concat_chunk_views)
qed

theorem pipeline_sorts_in_place_witness:
  "wf_slice [100, 9, 8, 7, 6, 5, 4, 3, 2, 1, 0, 50] \<lparr>ptr = 1, len = 10, cap = 11\<rparr> \<and>
   (\<exists>heap' out. pipeline [100, 9, 8, 7, 6, 5, 4, 3, 2, 1, 0, 50] \<lparr>ptr = 1, len = 10, cap = 11\<rparr>
      = Inr (heap', out) \<and>
      mset (view heap' \<lparr>ptr = 1, len = 10, cap = 11\<rparr>) = mset [9, 8, 7, 6, 5, 4, 3, 2, 1, 0] \<and>
      length heap' = 12 \<and> take 1 heap' = [100] \<and> drop 11 heap' = [50])"
proof -
  let ?h = "[100, 9, 8, 7, 6, 5, 4, 3, 2, 1, 0, 50] :: int list"
  let ?s = "\<lparr>ptr = 1, len = 10, cap = 11\<rparr>"
  have w: "wf_slice ?h ?s" by (simp add: wf_slice_def)
  have v: "view ?h ?s = [9, 8, 7, 6, 5, 4, 3, 2, 1, 0]" by (simp add: view_def)
  from pipeline_sorts_in_place [OF w] v w show ?thesis by auto
qed

theorem pipeline_sorted_input_witness:
  "wf_slice [0, 1, 1, 2, 3, 5, 8, 13, 21, 34, 55] \<lparr>ptr = 0, len = 11, cap = 11\<rparr> \<and>
   sorted (view [0, 1, 1, 2, 3, 5, 8, 13, 21, 34, 55] \<lparr>ptr = 0, len = 11, cap = 11\<rparr>) \<and>
   pipeline [0, 1, 1, 2, 3, 5, 8, 13, 21, 34, 55] \<lparr>ptr = 0, len = 11, cap = 11\<rparr>
     = Inr ([0, 1, 1, 2, 3, 5, 8, 13, 21, 34, 55], [0, 1, 1, 2, 3, 5, 8, 13, 21, 34, 55])"
proof -
  let ?h = "[0, 1, 1, 2, 3, 5, 8, 13, 21, 34, 55] :: int list"
  let ?s = "\<lparr>ptr = 0, len = 11, cap = 11\<rparr>"
  have w: "wf_slice ?h ?s" by (simp add: wf_slice_def)
  have v: "view ?h ?s = ?h" by (simp add: view_def)
  have s: "sorted (view ?h ?s)" unfolding v by simp
  from pipeline_sorted_input [OF w s] w s v show ?thesis by simp
qed

subsection \<open>The order in which the sort tasks run does not matter\<close>

text \<open>
  The chunks of splitIntoChunks occupy disjoint parts of the array, so two sort tasks
  commute, and running the tasks in any order, each once, leaves the array that
  \<open>sortChunksConcurrently\<close> returns.
\<close>

lemma sortInts_append:
  "length A = ptr s \<Longrightarrow> length B = len s \<Longrightarrow> sortInts (A @ B @ R) s = A @ sort B @ R"
  by (simp add: sortInts_def view_def)

lemma split_at_slice:
  assumes "ptr s + len s \<le> length h"
  obtains A B R where "h = A @ B @ R" "length A = ptr s" "length B = len s"
proof
  show "h = take (ptr s) h @ take (len s) (drop (ptr s) h) @ drop (len s) (drop (ptr s) h)"
    by (simp only: append_take_drop_id)
  show "length (take (ptr s) h) = ptr s" using assms by simp
  show "length (take (len s) (drop (ptr s) h)) = len s" using assms by simp
qed

lemma sortInts_length:
  assumes "ptr s + len s \<le> length h"
  shows "length (sortInts h s) = length h"
proof -
  from split_at_slice [OF assms] obtain A B R where
    h: "h = A @ B @ R" and l: "length A = ptr s" "length B = len s" by blast
  show ?thesis unfolding h by (simp add: sortInts_append [OF l])
qed

lemma sortInts_commute_ordered:
  assumes d: "ptr s + len s \<le> ptr t" and b: "ptr t + len t \<le> length h"
  shows "sortInts (sortInts h s) t = sortInts (sortInts h t) s"
proof -
  from d b have bs: "ptr s + len s \<le> length h" by simp
  from split_at_slice [OF bs] obtain A B R where
    h: "h = A @ B @ R" and l: "length A = ptr s" "length B = len s" by blast
  define t' where "t' = \<lparr>ptr = ptr t - (ptr s + len s), len = len t, cap = cap t\<rparr>"
  have "ptr t' + len t' \<le> length R" using d b h l by (simp add: t'_def)
  from split_at_slice [OF this] obtain C D E where
    R: "R = C @ D @ E" and l': "length C = ptr t'" "length D = len t'" by blast
  have lt: "length (A @ B @ C) = ptr t" "length (A @ sort B @ C) = ptr t" "length D = len t"
    using l l' d by (simp_all add: t'_def)
  have 1: "sortInts h s = (A @ sort B @ C) @ D @ E"
    unfolding h R using sortInts_append [OF l, of "C @ D @ E"] by simp
  have 2: "sortInts h t = A @ B @ C @ sort D @ E"
    unfolding h R using sortInts_append [OF lt(1,3), of E] by simp
  have "sortInts (sortInts h s) t = (A @ sort B @ C) @ sort D @ E"
    unfolding 1 by (rule sortInts_append [OF lt(2,3)])
  moreover have "sortInts (sortInts h t) s = A @ sort B @ C @ sort D @ E"
    unfolding 2 by (rule sortInts_append [OF l])
  ultimately show ?thesis by simp
qed

lemma chunks_of_nth:
  assumes "i < numChunks_of (len numbers)"
  shows "chunks_of numbers ! i =
         chunk_at numbers (len numbers div numChunks_of (len numbers))
                          (len numbers mod numChunks_of (len numbers)) i"
  using assms by (simp add: chunks_of_def)

lemma chunks_of_bounds:
  assumes w: "wf_slice heap numbers" and i: "i < numChunks_of (len numbers)"
  shows "ptr (chunks_of numbers ! i) + len (chunks_of numbers ! i) \<le> length heap"
proof -
  let ?n = "len numbers"
  let ?k = "numChunks_of ?n"
  let ?b = "?n div ?k" and ?r = "?n mod ?k"
  have "start_of ?b ?r (Suc i) \<le> start_of ?b ?r ?k" using i by (intro start_of_mono) simp
  hence "start_of ?b ?r i + size_of ?b ?r i \<le> ?n"
    by (simp add: start_of_Suc start_of_total [OF numChunks_of_pos])
  moreover from w have "ptr numbers + ?n \<le> length heap" by (simp add: wf_slice_def)
  ultimately show ?thesis by (simp add: chunks_of_nth [OF i] chunk_at_def)
qed

lemma chunks_of_disjoint:
  assumes "i < j" "j < numChunks_of (len numbers)"
  shows "ptr (chunks_of numbers ! i) + len (chunks_of numbers ! i) \<le> ptr (chunks_of numbers ! j)"
proof -
  let ?n = "len numbers"
  let ?k = "numChunks_of ?n"
  let ?b = "?n div ?k" and ?r = "?n mod ?k"
  from assms have i: "i < ?k" by simp
  have "start_of ?b ?r (Suc i) \<le> start_of ?b ?r j" using assms by (intro start_of_mono) simp
  thus ?thesis
    by (simp add: chunks_of_nth [OF i] chunks_of_nth [OF assms(2)] chunk_at_def start_of_Suc)
qed

lemma sort_tasks_any_order:
  assumes w: "wf_slice heap numbers"
    and p: "mset order = mset [0..<length (chunks_of numbers)]"
  shows "fold (\<lambda>i h. sortInts h (chunks_of numbers ! i)) order heap
         = fst (sortChunksConcurrently heap (chunks_of numbers))"
proof -
  let ?cs = "chunks_of numbers"
  let ?K = "length ?cs"
  let ?f = "\<lambda>i h. sortInts h (?cs ! i)"
  let ?P = "\<lambda>h. length h = length heap"
  have K: "?K = numChunks_of (len numbers)" by (rule length_chunks_of)
  have bound: "ptr (?cs ! i) + len (?cs ! i) \<le> length h" if "i < ?K" "?P h" for i and h :: heap
    using chunks_of_bounds [OF w, of i] that K by simp
  have comm: "?f i (?f j h) = ?f j (?f i h)" if "i < ?K" "j < ?K" "?P h" for i j h
  proof -
    consider "i < j" | "j < i" | "i = j" by linarith
    thus ?thesis
    proof cases
      case 1
      from that K have "j < numChunks_of (len numbers)" by simp
      from chunks_of_disjoint [OF 1 this]
      have "ptr (?cs ! i) + len (?cs ! i) \<le> ptr (?cs ! j)" .
      from sortInts_commute_ordered [OF this bound [OF that(2,3)]]
      show ?thesis by simp
    next
      case 2
      from that K have "i < numChunks_of (len numbers)" by simp
      from chunks_of_disjoint [OF 2 this]
      have "ptr (?cs ! j) + len (?cs ! j) \<le> ptr (?cs ! i)" .
      from sortInts_commute_ordered [OF this bound [OF that(1,3)]]
      show ?thesis by simp
    next
      case 3
      thus ?thesis by simp
    qed
  qed
  have "fold ?f [0..<?K] heap = fold ?f order heap"
  proof (rule fold_permuted_eq [where P = ?P])
    show "mset [0..<?K] = mset order" using p by simp
    show "?P heap" by simp
    show "?P (?f x z)" if "x \<in> set [0..<?K]" "?P z" for x z
    proof -
      from that have "x < ?K" by simp
      from sortInts_length [OF bound [OF this that(2)]] that(2) show ?thesis by simp
    qed
    show "?f x (?f y z) = ?f y (?f x z)" if "x \<in> set [0..<?K]" "y \<in> set [0..<?K]" "?P z" for x y z
      using comm [of x y z] that by simp
  qed
  moreover have "fold ?f [0..<?K] heap = fold (\<lambda>c h. sortInts h c) (map (nth ?cs) [0..<?K]) heap"
    by (simp add: fold_map comp_def)
  ultimately show ?thesis
    by (simp add: sortChunksConcurrently_def map_nth)
qed

section \<open>Properties of the three modes\<close>

lemma fill_random_drawn:
  assumes "j \<le> k" "k \<le> length nums"
  shows "fill_random intn [j..<k] g nums =
         Inr (take j nums @ fst (drawn intn g (k - j)) @ drop k nums, snd (drawn intn g (k - j)))"
  using assms
proof (induction "k - j" arbitrary: j g nums)
  case 0
  then show ?case by simp
next
  case (Suc d)
  hence jk: "j < k" by simp
  hence upt: "[j..<k] = j # [Suc j..<k]" by (rule upt_conv_Cons)
  obtain v g1 where v: "intn g 1000 = (v, g1)" by (cases "intn g 1000")
  obtain vs g2 where vs: "drawn intn g1 (k - Suc j) = (vs, g2)" by (cases "drawn intn g1 (k - Suc j)")
  have d: "d = k - Suc j" using Suc.hyps(2) by simp
  have kj: "k - j = Suc (k - Suc j)" using jk by simp
  have dr: "drawn intn g (k - j) = (v # vs, g2)"
    unfolding kj using v vs by simp
  have st: "store_at nums j v = Inr (nums[j := v])"
    using jk Suc.prems by (simp add: store_at_def)
  have IH: "fill_random intn [Suc j..<k] g1 (nums[j := v]) =
         Inr (take (Suc j) (nums[j := v]) @ fst (drawn intn g1 (k - Suc j)) @ drop k (nums[j := v]),
              snd (drawn intn g1 (k - Suc j)))"
    using jk Suc.prems by (intro Suc.hyps(1) [OF d]) simp_all
  have t: "take (Suc j) (nums[j := v]) = take j nums @ [v]"
    using jk Suc.prems by (simp add: take_Suc_conv_app_nth)
  have dk: "drop k (nums[j := v]) = drop k nums" using jk by simp
  show ?case
    unfolding upt dr using v st IH t dk vs by simp
qed

lemma drawn_length: "length (fst (drawn intn g k)) = k"
proof (induction k arbitrary: g)
  case 0
  show ?case by simp
next
  case (Suc k)
  obtain v g1 where v: "intn g 1000 = (v, g1)" by (cases "intn g 1000")
  with Suc [of g1] show ?case by (auto split: prod.splits)
qed

lemma drawn_range:
  assumes "\<And>g. 0 \<le> fst (intn g 1000) \<and> fst (intn g 1000) < 1000"
  shows "\<forall>x\<in>set (fst (drawn intn g k)). 0 \<le> x \<and> x < 1000"
proof (induction k arbitrary: g)
  case 0
  show ?case by simp
next
  case (Suc k)
  obtain v g1 where v: "intn g 1000 = (v, g1)" by (cases "intn g 1000")
  with assms [of g] have "0 \<le> v" "v < 1000" by simp_all
  with Suc [of g1] v show ?case by (simp split: prod.splits)
qed

lemma generateRandomNumbers_drawn:
  assumes "\<not> makeslice_panics maxAlloc (sint n)"
  shows "generateRandomNumbers intn maxAlloc g n = Inr (drawn intn g (nat (sint n)))"
proof -
  have "fill_random intn [0..<nat (sint n)] g (replicate (nat (sint n)) 0) =
        Inr (take 0 (replicate (nat (sint n)) 0) @ fst (drawn intn g (nat (sint n) - 0))
               @ drop (nat (sint n)) (replicate (nat (sint n)) 0),
             snd (drawn intn g (nat (sint n) - 0)))"
    by (rule fill_random_drawn) simp_all
  with assms show ?thesis by (simp add: generateRandomNumbers_def)
qed

lemma processAndPrint_pipeline:
  "processAndPrint heap numbers =
     (case pipeline heap numbers of
        Inl e \<Rightarrow> Inl e
      | Inr (heap', result) \<Rightarrow>
          (case splitIntoChunks numbers of
             Inl e \<Rightarrow> Inl e
           | Inr chunks \<Rightarrow>
               Inr (heap',
                    (PrintLine (CHR 0x0A # ''Chunks before sorting:'') # printChunks heap chunks)
                    @ (PrintLine (CHR 0x0A # ''Chunks after sorting:'') # printChunks heap' chunks)
                    @ [PrintLine (CHR 0x0A # ''Final sorted result:''), PrintInts result])))"
  by (simp add: processAndPrint_def pipeline_def sortChunksConcurrently_def Let_def
           split: sum.splits prod.splits)

lemma processAndPrint_ok:
  assumes "wf_slice heap numbers"
  shows "\<exists>heap' out. processAndPrint heap numbers = Inr (heap', out @ [PrintInts (sort (view heap numbers))])"
proof -
  let ?out = "spec_merge (map (\<lambda>c. sort (view heap c)) (chunks_of numbers))"
  from pipeline_result [OF assms]
  have "mset ?out = mset (view heap numbers)" "sorted ?out" by simp_all
  hence out: "?out = sort (view heap numbers)"
    by (metis properties_for_sort)
  from assms have "len numbers \<le> cap numbers" by (simp add: wf_slice_def)
  from splitIntoChunks_chunks_of [OF this] pipeline_closed [OF assms] out
  show ?thesis
    by (simp add: processAndPrint_pipeline)
qed

lemma wf_whole: "wf_slice xs (whole xs)" and view_whole: "view xs (whole xs) = xs"
  by (simp_all add: wf_slice_def whole_def view_def)

text \<open>
  C7 as stated (for every \<open>N \<ge> 10\<close> runRandom succeeds) fails: runRandom checks only
  \<open>N < 10\<close>, and for an \<open>N\<close> beyond what \<^verbatim>\<open>make\<close> accepts the program panics in
  generateRandomNumbers. With \<open>N = 2^62\<close> the size in bytes overflows on every 64-bit
  platform.
\<close>

theorem runRandom_panics_on_large_N:
  "\<not> sint (2 ^ 62 :: 64 word) < 10 \<and>
   runRandom demo_intn (2 ^ 48) 1 (2 ^ 62) = Inl (Panic ''makeslice: len out of range'')"
  by (simp add: runRandom_def generateRandomNumbers_def makeslice_panics_def)

text \<open>
  C7 as amended. runRandom returns an error exactly when \<open>N < 10\<close> (the error
  \<^verbatim>\<open>N must be >= 10\<close>). For \<open>N \<ge> 10\<close> within what \<^verbatim>\<open>make\<close> accepts it generates exactly \<open>N\<close>
  integers, the \<open>N\<close> successive draws of \<^verbatim>\<open>rand.Intn(1000)\<close>, each in \<open>[0, 1000)\<close>, prints
  them, hands them to the pipeline and ends with the sorted sequence. For \<open>N \<ge> 10\<close> beyond
  what \<^verbatim>\<open>make\<close> accepts it panics with \<^verbatim>\<open>makeslice: len out of range\<close>. The range of
  \<^verbatim>\<open>rand.Intn(1000)\<close> is the library's promise, taken as the hypothesis.
\<close>

theorem runRandom_errors:
  assumes "\<And>g. 0 \<le> fst (intn g 1000) \<and> fst (intn g 1000) < 1000"
  shows "((\<exists>msg. runRandom intn maxAlloc g n = Inl (Error msg)) \<longleftrightarrow> sint n < 10) \<and>
         (sint n < 10 \<longrightarrow> runRandom intn maxAlloc g n = Inl (Error ''N must be >= 10'')) \<and>
         (10 \<le> sint n \<and> \<not> makeslice_panics maxAlloc (sint n) \<longrightarrow>
            (\<exists>numbers g' out.
               generateRandomNumbers intn maxAlloc g n = Inr (numbers, g') \<and>
               (numbers, g') = drawn intn g (nat (sint n)) \<and>
               length numbers = nat (sint n) \<and> (\<forall>x\<in>set numbers. 0 \<le> x \<and> x < 1000) \<and>
               runRandom intn maxAlloc g n =
                 Inr (PrintLine ''Original numbers:'' # PrintInts numbers # out
                        @ [PrintInts (sort numbers)], g'))) \<and>
         (10 \<le> sint n \<and> makeslice_panics maxAlloc (sint n) \<longrightarrow>
            runRandom intn maxAlloc g n = Inl (Panic ''makeslice: len out of range''))"
proof (cases "sint n < 10")
  case True
  thus ?thesis by (simp add: runRandom_def)
next
  case False
  show ?thesis
  proof (cases "makeslice_panics maxAlloc (sint n)")
    case True
    with False show ?thesis by (simp add: runRandom_def generateRandomNumbers_def)
  next
    case ok: False
    obtain numbers g' where dr: "drawn intn g (nat (sint n)) = (numbers, g')"
      by (cases "drawn intn g (nat (sint n))")
    have gen: "generateRandomNumbers intn maxAlloc g n = Inr (numbers, g')"
      using generateRandomNumbers_drawn [OF ok, of intn g] dr by simp
    have l: "length numbers = nat (sint n)"
      using drawn_length [of intn g "nat (sint n)"] dr by simp
    have r: "\<forall>x\<in>set numbers. 0 \<le> x \<and> x < 1000"
      using drawn_range [where intn = intn and g = g and k = "nat (sint n)", OF assms] dr by simp
    from processAndPrint_ok [OF wf_whole, of numbers] obtain heap' out where
      p: "processAndPrint numbers (whole numbers) = Inr (heap', out @ [PrintInts (sort numbers)])"
      by (auto simp: view_whole)
    have run: "runRandom intn maxAlloc g n =
        Inr (PrintLine ''Original numbers:'' # PrintInts numbers # out @ [PrintInts (sort numbers)], g')"
      using False gen p by (simp add: runRandom_def)
    with False ok gen dr l r show ?thesis by auto
  qed
qed

theorem runRandom_errors_witness:
  "(\<forall>g. 0 \<le> fst (demo_intn g 1000) \<and> fst (demo_intn g 1000) < 1000) \<and>
   sint (9 :: 64 word) < 10 \<and>
   runRandom demo_intn (2 ^ 48) 1 9 = Inl (Error ''N must be >= 10'') \<and>
   10 \<le> sint (12 :: 64 word) \<and> \<not> makeslice_panics (2 ^ 48) (sint (12 :: 64 word)) \<and>
   (\<exists>numbers g' out.
      (numbers, g') = drawn demo_intn 1 12 \<and> length numbers = 12 \<and>
      (\<forall>x\<in>set numbers. 0 \<le> x \<and> x < 1000) \<and>
      runRandom demo_intn (2 ^ 48) 1 12 =
        Inr (PrintLine ''Original numbers:'' # PrintInts numbers # out
               @ [PrintInts (sort numbers)], g')) \<and>
   10 \<le> sint (2 ^ 61 :: 64 word) \<and> makeslice_panics (2 ^ 48) (sint (2 ^ 61 :: 64 word)) \<and>
   runRandom demo_intn (2 ^ 48) 1 (2 ^ 61) = Inl (Panic ''makeslice: len out of range'')"
proof -
  have c: "\<And>g. 0 \<le> fst (demo_intn g 1000) \<and> fst (demo_intn g 1000) < 1000"
    by (simp add: demo_intn_def)
  have s9: "sint (9 :: 64 word) < 10" by simp
  have s12: "10 \<le> sint (12 :: 64 word)" "\<not> makeslice_panics (2 ^ 48) (sint (12 :: 64 word))"
    "nat (sint (12 :: 64 word)) = 12"
    by (simp_all add: makeslice_panics_def)
  have s61: "10 \<le> sint (2 ^ 61 :: 64 word)" "makeslice_panics (2 ^ 48) (sint (2 ^ 61 :: 64 word))"
    by (simp_all add: makeslice_panics_def)
  from runRandom_errors [where intn = demo_intn and maxAlloc = "2 ^ 48" and g = 1 and n = 9, OF c]
       runRandom_errors [where intn = demo_intn and maxAlloc = "2 ^ 48" and g = 1 and n = 12, OF c]
       runRandom_errors [where intn = demo_intn and maxAlloc = "2 ^ 48" and g = 1 and n = "2 ^ 61", OF c]
       c s9 s12 s61
  show ?thesis by (simp, blast)
qed

lemma read_lines_bad:
  "list_ex (bad_line env) lines \<Longrightarrow> \<exists>e. read_lines env lines acc = Inl e"
proof (induction lines arbitrary: acc)
  case Nil
  then show ?case by simp
next
  case (Cons t lines)
  show ?case
  proof (cases "bad_line env t")
    case True
    thus ?thesis by (simp add: bad_line_def blank_def Let_def)
  next
    case False
    with Cons.prems have "list_ex (bad_line env) lines" by simp
    from Cons.IH [OF this] False show ?thesis
      by (auto simp: bad_line_def blank_def Let_def split: option.splits)
  qed
qed

lemma read_lines_good:
  "\<not> list_ex (bad_line env) lines \<Longrightarrow>
   read_lines env lines acc =
     Inr (acc @ map (\<lambda>t. the (atoi env (trimSpace env t))) (filter (\<lambda>t. \<not> blank env t) lines))"
proof (induction lines arbitrary: acc)
  case Nil
  then show ?case by simp
next
  case (Cons t lines)
  hence nb: "\<not> bad_line env t" and rest: "\<not> list_ex (bad_line env) lines" by simp_all
  show ?case
  proof (cases "blank env t")
    case True
    with Cons.IH [OF rest] show ?thesis by (simp add: blank_def Let_def)
  next
    case False
    with nb obtain v where "atoi env (trimSpace env t) = Some v"
      by (auto simp: bad_line_def)
    with False Cons.IH [OF rest] show ?thesis by (simp add: blank_def Let_def)
  qed
qed

lemma readNumbersFromFile_opened:
  assumes "openFile env path = Inr (lines, scanErr)"
  shows "list_ex (bad_line env) lines \<Longrightarrow>
           fst (readNumbersFromFile env path) = [] \<and> snd (readNumbersFromFile env path) \<noteq> None"
    and "\<not> list_ex (bad_line env) lines \<Longrightarrow>
           readNumbersFromFile env path =
             (map (\<lambda>t. the (atoi env (trimSpace env t))) (filter (\<lambda>t. \<not> blank env t) lines), scanErr)"
proof -
  show "fst (readNumbersFromFile env path) = [] \<and> snd (readNumbersFromFile env path) \<noteq> None"
    if "list_ex (bad_line env) lines"
    using read_lines_bad [OF that, of "[]"] assms by (auto simp: readNumbersFromFile_def)
  show "readNumbersFromFile env path =
          (map (\<lambda>t. the (atoi env (trimSpace env t))) (filter (\<lambda>t. \<not> blank env t) lines), scanErr)"
    if "\<not> list_ex (bad_line env) lines"
    using read_lines_good [OF that, of "[]"] assms by (simp add: readNumbersFromFile_def)
qed

lemma wf_appended: "wf_slice (backing env numbers) (appended env numbers)"
  by (simp add: wf_slice_def backing_def appended_def)

lemma runInputFile_fails:
  "(\<exists>e. runInputFile env path = Inl e) \<longleftrightarrow>
   snd (readNumbersFromFile env path) \<noteq> None \<or> length (fst (readNumbersFromFile env path)) < 10"
proof -
  obtain numbers err where r: "readNumbersFromFile env path = (numbers, err)"
    by (cases "readNumbersFromFile env path")
  from processAndPrint_ok [OF wf_appended, of env numbers] obtain heap' out where
    "processAndPrint (backing env numbers) (appended env numbers) = Inr (heap', out)" by blast
  thus ?thesis using r by (cases err) (simp_all add: runInputFile_def)
qed

lemma dir_loop_writes:
  "p \<in> fst ` set (snd (dir_loop env dir out entries files)) \<Longrightarrow>
   p \<in> fst ` set files \<or>
   (\<exists>g\<in>set entries. p = join env out g \<and> snd (readNumbersFromFile env (join env dir g)) = None)"
proof (induction entries arbitrary: files)
  case Nil
  then show ?case by simp
next
  case (Cons f entries)
  show ?case
  proof (cases "ext env f \<noteq> ''.txt''")
    case True
    with Cons.prems have "p \<in> fst ` set (snd (dir_loop env dir out entries files))" by simp
    from Cons.IH [OF this] show ?thesis by auto
  next
    case istxt: False
    obtain numbers err where r: "readNumbersFromFile env (join env dir f) = (numbers, err)"
      by (cases "readNumbersFromFile env (join env dir f)")
    show ?thesis
    proof (cases err)
      case (Some e)
      with Cons.prems istxt r show ?thesis by simp
    next
      case None
      show ?thesis
      proof (cases "length numbers < 10")
        case True
        with Cons.prems istxt r None show ?thesis by simp
      next
        case long: False
        show ?thesis
        proof (cases "pipeline (backing env numbers) (appended env numbers)")
          case (Inl e)
          with Cons.prems istxt r None long show ?thesis by simp
        next
          case (Inr hr)
          obtain heap' result where hr: "hr = (heap', result)" by (cases hr)
          show ?thesis
          proof (cases "create env (join env out f)")
            case (Some e)
            with Cons.prems istxt r None long Inr hr show ?thesis
              by (simp add: writeNumbersToFile_def)
          next
            case cr: None
            with Cons.prems istxt r None long Inr hr
            have "p \<in> fst ` set (snd (dir_loop env dir out entries (files @ [(join env out f, result)])))"
              by (simp add: writeNumbersToFile_def)
            from Cons.IH [OF this] r None show ?thesis by auto
          qed
        qed
      qed
    qed
  qed
qed

lemma dir_loop_fails:
  "f \<in> set entries \<Longrightarrow> ext env f = ''.txt'' \<Longrightarrow>
   snd (readNumbersFromFile env (join env dir f)) \<noteq> None \<Longrightarrow>
   fst (dir_loop env dir out entries files) \<noteq> None"
proof (induction entries arbitrary: files)
  case Nil
  then show ?case by simp
next
  case (Cons g entries)
  show ?case
  proof (cases "g = f")
    case True
    with Cons.prems show ?thesis
      by (cases "readNumbersFromFile env (join env dir f)") auto
  next
    case False
    with Cons.prems have "f \<in> set entries" by simp
    from Cons.IH [OF this Cons.prems(2,3)]
    show ?thesis
      by (auto simp: writeNumbersToFile_def split: prod.splits option.splits sum.splits)
  qed
qed

lemma runDirectory_no_output:
  assumes "readDir env dir = Inr entries" "f \<in> set entries" "ext env f = ''.txt''"
    and "snd (readNumbersFromFile env (join env dir f)) \<noteq> None"
    and "\<forall>g\<in>set entries. join env (dir @ ''_sorted_sandra_jaimy_241ADB123'') g
            = join env (dir @ ''_sorted_sandra_jaimy_241ADB123'') f \<longrightarrow> g = f"
  shows "fst (runDirectory env dir) \<noteq> None"
    and "join env (dir @ ''_sorted_sandra_jaimy_241ADB123'') f \<notin> fst ` set (snd (runDirectory env dir))"
proof -
  let ?out = "dir @ ''_sorted_sandra_jaimy_241ADB123''"
  have loop: "join env ?out f \<notin> fst ` set (snd (dir_loop env dir ?out entries []))"
  proof
    assume "join env ?out f \<in> fst ` set (snd (dir_loop env dir ?out entries []))"
    from dir_loop_writes [OF this] obtain g where "g \<in> set entries"
      "join env ?out f = join env ?out g" "snd (readNumbersFromFile env (join env dir g)) = None"
      by auto
    with assms(5) have "g = f" by auto
    with assms(4) \<open>snd (readNumbersFromFile env (join env dir g)) = None\<close> show False by simp
  qed
  from dir_loop_fails [OF assms(2,3,4)] assms(1)
  show "fst (runDirectory env dir) \<noteq> None"
    by (simp add: runDirectory_def Let_def split: sum.splits option.splits)
  from loop assms(1)
  show "join env ?out f \<notin> fst ` set (snd (runDirectory env dir))"
    by (simp add: runDirectory_def Let_def split: sum.splits option.splits)
qed


text \<open>
  C8 as stated (an error if and only if some non-blank line fails to parse) fails:
  readNumbersFromFile also returns the error of \<^verbatim>\<open>os.Open\<close> and the error of the scanner. A
  file that does not open gives an error though no line was read, and a scanner error
  after two good lines gives an error together with the two numbers.
\<close>

theorem readNumbersFromFile_other_errors:
  "snd (readNumbersFromFile demo_env ''in/none.txt'') \<noteq> None \<and>
   \<not> list_ex (bad_line demo_env) (scanned demo_env ''in/none.txt'') \<and>
   readNumbersFromFile demo_env ''in/long.txt''
     = ([1, 2], Some (Error ''bufio.Scanner: token too long'')) \<and>
   \<not> list_ex (bad_line demo_env) (scanned demo_env ''in/long.txt'')"
  by code_simp

text \<open>
  C8 as amended. When the file opens and the scanner reports no error,
  readNumbersFromFile returns an error exactly when some non-blank line fails to parse,
  and then it returns no numbers; otherwise it returns the parsed non-blank lines in
  order. It also returns an error when the file does not open (with no numbers) or the
  scanner reports one (with the numbers parsed from the lines read so far, unless one of
  them fails to parse). runInputFile fails exactly when readNumbersFromFile returns an error or fewer than
  10 numbers. In directory mode a \<^verbatim>\<open>.txt\<close> entry whose reading fails makes runDirectory fail
  and no output file is written for it.
\<close>

theorem file_mode_errors:
  "(openFile env path = Inr (lines, None) \<longrightarrow>
      ((snd (readNumbersFromFile env path) \<noteq> None) = list_ex (bad_line env) lines) \<and>
      (list_ex (bad_line env) lines \<longrightarrow> fst (readNumbersFromFile env path) = []) \<and>
      (\<not> list_ex (bad_line env) lines \<longrightarrow>
         fst (readNumbersFromFile env path) =
           map (\<lambda>t. the (atoi env (trimSpace env t))) (filter (\<lambda>t. \<not> blank env t) lines))) \<and>
   (\<forall>err. openFile env path = Inl err \<longrightarrow> readNumbersFromFile env path = ([], Some err)) \<and>
   (\<forall>ls err. openFile env path = Inr (ls, Some err) \<longrightarrow>
      snd (readNumbersFromFile env path) \<noteq> None) \<and>
   (\<forall>ls err. openFile env path = Inr (ls, Some err) \<and> \<not> list_ex (bad_line env) ls \<longrightarrow>
      readNumbersFromFile env path =
        (map (\<lambda>t. the (atoi env (trimSpace env t))) (filter (\<lambda>t. \<not> blank env t) ls), Some err)) \<and>
   (\<forall>ls err. openFile env path = Inr (ls, Some err) \<and> list_ex (bad_line env) ls \<longrightarrow>
      fst (readNumbersFromFile env path) = []) \<and>
   ((\<exists>e. runInputFile env path = Inl e) =
      (snd (readNumbersFromFile env path) \<noteq> None \<or>
       length (fst (readNumbersFromFile env path)) < 10)) \<and>
   (readDir env dir = Inr entries \<and> f \<in> set entries \<and> ext env f = ''.txt'' \<and>
    snd (readNumbersFromFile env (join env dir f)) \<noteq> None \<and>
    (\<forall>g\<in>set entries. join env (dir @ ''_sorted_sandra_jaimy_241ADB123'') g
        = join env (dir @ ''_sorted_sandra_jaimy_241ADB123'') f \<longrightarrow> g = f) \<longrightarrow>
    fst (runDirectory env dir) \<noteq> None \<and>
    join env (dir @ ''_sorted_sandra_jaimy_241ADB123'') f
      \<notin> fst ` set (snd (runDirectory env dir)))"
proof (intro conjI impI allI)
  assume o: "openFile env path = Inr (lines, None)"
  show "(snd (readNumbersFromFile env path) \<noteq> None) = list_ex (bad_line env) lines"
    using readNumbersFromFile_opened [OF o] by (cases "list_ex (bad_line env) lines") simp_all
  show "fst (readNumbersFromFile env path) = []" if "list_ex (bad_line env) lines"
    using readNumbersFromFile_opened(1) [OF o that] by simp
  show "fst (readNumbersFromFile env path) =
           map (\<lambda>t. the (atoi env (trimSpace env t))) (filter (\<lambda>t. \<not> blank env t) lines)"
    if "\<not> list_ex (bad_line env) lines"
    using readNumbersFromFile_opened(2) [OF o that] by simp
next
  fix err assume "openFile env path = Inl err"
  thus "readNumbersFromFile env path = ([], Some err)" by (simp add: readNumbersFromFile_def)
next
  fix ls err assume "openFile env path = Inr (ls, Some err)"
  thus "snd (readNumbersFromFile env path) \<noteq> None"
    by (simp add: readNumbersFromFile_def split: sum.splits)
next
  fix ls err
  assume "openFile env path = Inr (ls, Some err) \<and> \<not> list_ex (bad_line env) ls"
  thus "readNumbersFromFile env path =
        (map (\<lambda>t. the (atoi env (trimSpace env t))) (filter (\<lambda>t. \<not> blank env t) ls), Some err)"
    using readNumbersFromFile_opened(2) [of env path ls "Some err"] by blast
next
  fix ls err
  assume "openFile env path = Inr (ls, Some err) \<and> list_ex (bad_line env) ls"
  thus "fst (readNumbersFromFile env path) = []"
    using readNumbersFromFile_opened(1) [of env path ls "Some err"] by blast
next
  show "(\<exists>e. runInputFile env path = Inl e) =
      (snd (readNumbersFromFile env path) \<noteq> None \<or>
       length (fst (readNumbersFromFile env path)) < 10)"
    by (rule runInputFile_fails)
next
  assume a: "readDir env dir = Inr entries \<and> f \<in> set entries \<and> ext env f = ''.txt'' \<and>
    snd (readNumbersFromFile env (join env dir f)) \<noteq> None \<and>
    (\<forall>g\<in>set entries. join env (dir @ ''_sorted_sandra_jaimy_241ADB123'') g
        = join env (dir @ ''_sorted_sandra_jaimy_241ADB123'') f \<longrightarrow> g = f)"
  thus "fst (runDirectory env dir) \<noteq> None"
    using runDirectory_no_output(1) [of env dir entries f] by blast
  from a show "join env (dir @ ''_sorted_sandra_jaimy_241ADB123'') f
      \<notin> fst ` set (snd (runDirectory env dir))"
    using runDirectory_no_output(2) [of env dir entries f] by blast
qed

theorem file_mode_errors_witness:
  "openFile demo_env ''in/b.txt'' = Inr ([''1'', ''2'', ''abc'', ''4''], None) \<and>
   list_ex (bad_line demo_env) [''1'', ''2'', ''abc'', ''4''] \<and>
   snd (readNumbersFromFile demo_env ''in/b.txt'') \<noteq> None \<and>
   fst (readNumbersFromFile demo_env ''in/b.txt'') = [] \<and>
   (\<exists>e. runInputFile demo_env ''in/b.txt'' = Inl e) \<and>
   readDir demo_env ''in'' = Inr [''a.txt'', ''notes.md'', ''b.txt'', ''c.txt''] \<and>
   fst (runDirectory demo_env ''in'') \<noteq> None \<and>
   ''in_sorted_sandra_jaimy_241ADB123/b.txt'' \<notin> fst ` set (snd (runDirectory demo_env ''in'')) \<and>
   openFile demo_env ''in/long.txt''
     = Inr ([''1'', ''2''], Some (Error ''bufio.Scanner: token too long'')) \<and>
   \<not> list_ex (bad_line demo_env) [''1'', ''2''] \<and>
   readNumbersFromFile demo_env ''in/long.txt''
     = ([1, 2], Some (Error ''bufio.Scanner: token too long''))"
proof -
  let ?long = "[''1'', ''2'']"
  have ol: "openFile demo_env ''in/long.txt''
     = Inr (?long, Some (Error ''bufio.Scanner: token too long''))" by (simp add: demo_env_def)
  have gl: "\<not> list_ex (bad_line demo_env) ?long" by code_simp
  have ml: "map (\<lambda>t. the (atoi demo_env (trimSpace demo_env t)))
              (filter (\<lambda>t. \<not> blank demo_env t) ?long) = [1, 2]" by code_simp
  from file_mode_errors [of demo_env "''in/long.txt''" "[]" "''in''" "[]" "''b.txt''"] ol gl
  have "readNumbersFromFile demo_env ''in/long.txt'' =
        (map (\<lambda>t. the (atoi demo_env (trimSpace demo_env t)))
           (filter (\<lambda>t. \<not> blank demo_env t) ?long), Some (Error ''bufio.Scanner: token too long''))"
    by blast
  with ml have rl: "readNumbersFromFile demo_env ''in/long.txt''
     = ([1, 2], Some (Error ''bufio.Scanner: token too long''))" by simp
  let ?lines = "[''1'', ''2'', ''abc'', ''4'']"
  let ?entries = "[''a.txt'', ''notes.md'', ''b.txt'', ''c.txt'']"
  have o: "openFile demo_env ''in/b.txt'' = Inr (?lines, None)" by (simp add: demo_env_def)
  have b: "list_ex (bad_line demo_env) ?lines" by code_simp
  have d: "readDir demo_env ''in'' = Inr ?entries" by (simp add: demo_env_def)
  have j: "join demo_env ''in'' ''b.txt'' = ''in/b.txt''"
    "join demo_env (''in'' @ ''_sorted_sandra_jaimy_241ADB123'') ''b.txt''
       = ''in_sorted_sandra_jaimy_241ADB123/b.txt''"
    by (simp_all add: demo_env_def)
  have e: "ext demo_env ''b.txt'' = ''.txt''" by (simp add: demo_env_def)
  have i: "\<forall>g\<in>set ?entries. join demo_env (''in'' @ ''_sorted_sandra_jaimy_241ADB123'') g
        = join demo_env (''in'' @ ''_sorted_sandra_jaimy_241ADB123'') ''b.txt'' \<longrightarrow> g = ''b.txt''"
    by (simp add: demo_env_def)
  note t = file_mode_errors [of demo_env "''in/b.txt''" ?lines "''in''" ?entries "''b.txt''"]
  from t o b have r: "snd (readNumbersFromFile demo_env ''in/b.txt'') \<noteq> None"
    "fst (readNumbersFromFile demo_env ''in/b.txt'') = []" by blast+
  with t have run: "\<exists>e. runInputFile demo_env ''in/b.txt'' = Inl e" by blast
  from r(1) j(1) have rj: "snd (readNumbersFromFile demo_env (join demo_env ''in'' ''b.txt'')) \<noteq> None"
    by simp
  have m: "''b.txt'' \<in> set ?entries" by simp
  from t d m e rj i have "fst (runDirectory demo_env ''in'') \<noteq> None \<and>
    join demo_env (''in'' @ ''_sorted_sandra_jaimy_241ADB123'') ''b.txt''
      \<notin> fst ` set (snd (runDirectory demo_env ''in''))" by blast
  with j(2) o b r run d ol gl rl show ?thesis by simp
qed

end
